theory Spec2Isabelle
  imports Main "HOL-Library.Word" "HOL-Library.Monad_Syntax"
begin

unbundle bit_operations_syntax

section \<open>Data model of the CHIP-8 virtual machine\<close>

text \<open>
  The machine of \<^verbatim>\<open>chip8.cpp\<close>. The fixed-width integers \<^verbatim>\<open>u8\<close> and \<^verbatim>\<open>u16\<close> are words,
  so that \<open>+\<close> and \<open>-\<close> wrap as the C++ conversions back to the narrow type do. A
  \<^verbatim>\<open>std::array\<close> is a list; its \<^verbatim>\<open>operator[]\<close> does no bounds check, and an index
  outside the array is undefined behaviour, which the model reports as \<open>None\<close>.
\<close>

type_synonym u8 = "8 word"
type_synonym u16 = "16 word"

abbreviation kDisplayWidth :: nat where "kDisplayWidth \<equiv> 64"
abbreviation kDisplayHeight :: nat where "kDisplayHeight \<equiv> 32"
abbreviation kPixelCount :: nat where "kPixelCount \<equiv> 2048"
abbreviation kMemSize :: nat where "kMemSize \<equiv> 4096"
abbreviation kEntryAddr :: nat where "kEntryAddr \<equiv> 512"
abbreviation kRegCount :: nat where "kRegCount \<equiv> 16"
abbreviation kStackDepth :: nat where "kStackDepth \<equiv> 16"
abbreviation kKeyCount :: nat where "kKeyCount \<equiv> 16"
abbreviation kGlyphBytes :: nat where "kGlyphBytes \<equiv> 5"

definition kFontSprites :: "u8 list" where
  "kFontSprites =
    [0xF0,0x90,0x90,0x90,0xF0, 0x20,0x60,0x20,0x20,0x70, 0xF0,0x10,0xF0,0x80,0xF0, 0xF0,0x10,0xF0,0x10,0xF0,
     0x90,0x90,0xF0,0x10,0x10, 0xF0,0x80,0xF0,0x10,0xF0, 0xF0,0x80,0xF0,0x90,0xF0, 0xF0,0x10,0x20,0x40,0x40,
     0xF0,0x90,0xF0,0x90,0xF0, 0xF0,0x90,0xF0,0x10,0xF0, 0xF0,0x90,0xF0,0x90,0x90, 0xE0,0x90,0xE0,0x90,0xE0,
     0xF0,0x80,0x80,0x80,0xF0, 0xE0,0x90,0x90,0x90,0xE0, 0xF0,0x80,0xF0,0x80,0xF0, 0xF0,0x80,0xF0,0x80,0x80]"

record Keypad =
  keys :: "bool list"

record FB =
  pix :: "u8 list"

record State =
  mem :: "u8 list"
  v :: "u8 list"
  I :: u16
  pc :: u16
  stack :: "u16 list"
  sp :: u8
  DT :: u8
  ST :: u8

record Chip8VM =
  st :: State
  fb :: FB
  waitKey :: bool
  waitReg :: u8

text \<open>Unchecked array access: \<open>None\<close> stands for the out-of-range access.\<close>

definition rd :: "'a list \<Rightarrow> nat \<Rightarrow> 'a option" where
  "rd a i = (if i < length a then Some (a ! i) else None)"

definition wr :: "'a list \<Rightarrow> nat \<Rightarrow> 'a \<Rightarrow> 'a list option" where
  "wr a i x = (if i < length a then Some (a[i := x]) else None)"

text \<open>\<^verbatim>\<open>Keypad::down\<close> checks its index; it never faults.\<close>

definition down :: "Keypad \<Rightarrow> u8 \<Rightarrow> bool" where
  "down k i = (if unat i < length (keys k) then keys k ! unat i else False)"

definition set_key :: "Keypad \<Rightarrow> u8 \<Rightarrow> bool \<Rightarrow> Keypad" where
  "set_key k i b = (if unat i < length (keys k) then k\<lparr>keys := (keys k)[unat i := b]\<rparr> else k)"

subsection \<open>Field access\<close>

definition get_reg :: "Chip8VM \<Rightarrow> nat \<Rightarrow> u8 option" where
  "get_reg vm i = rd (v (st vm)) i"

definition set_reg :: "nat \<Rightarrow> u8 \<Rightarrow> Chip8VM \<Rightarrow> Chip8VM option" where
  "set_reg i x vm = map_option (\<lambda>r. vm\<lparr>st := (st vm)\<lparr>v := r\<rparr>\<rparr>) (wr (v (st vm)) i x)"

definition get_mem :: "Chip8VM \<Rightarrow> nat \<Rightarrow> u8 option" where
  "get_mem vm i = rd (mem (st vm)) i"

definition set_mem :: "nat \<Rightarrow> u8 \<Rightarrow> Chip8VM \<Rightarrow> Chip8VM option" where
  "set_mem i x vm = map_option (\<lambda>m. vm\<lparr>st := (st vm)\<lparr>mem := m\<rparr>\<rparr>) (wr (mem (st vm)) i x)"

definition set_pc :: "u16 \<Rightarrow> Chip8VM \<Rightarrow> Chip8VM" where
  "set_pc a vm = vm\<lparr>st := (st vm)\<lparr>pc := a\<rparr>\<rparr>"

definition skip :: "bool \<Rightarrow> Chip8VM \<Rightarrow> Chip8VM" where
  "skip b vm = (if b then set_pc (pc (st vm) + 2) vm else vm)"

section \<open>Construction, reset and program load\<close>

definition State0 :: State where
  "State0 = \<lparr>mem = replicate kMemSize 0, v = replicate kRegCount 0, I = 0, pc = 0x200,
     stack = replicate kStackDepth 0, sp = 0, DT = 0, ST = 0\<rparr>"

text \<open>The copy loops of \<^verbatim>\<open>reset\<close> and \<^verbatim>\<open>load\<close>: byte \<open>i\<close> of the source goes to \<open>base + i\<close>.\<close>

fun copy_bytes :: "nat \<Rightarrow> u8 list \<Rightarrow> nat \<Rightarrow> Chip8VM \<Rightarrow> Chip8VM option" where
  "copy_bytes base [] i vm = Some vm"
| "copy_bytes base (b # bs) i vm = do {
     vm1 \<leftarrow> set_mem (base + i) b vm;
     copy_bytes base bs (Suc i) vm1 }"

definition reset :: "Chip8VM \<Rightarrow> Chip8VM option" where
  "reset vm = copy_bytes 0x050 kFontSprites 0
     (vm\<lparr>st := State0, fb := (fb vm)\<lparr>pix := replicate kPixelCount 0\<rparr>\<rparr>)"

text \<open>The constructor: the members' default initialisers, then \<^verbatim>\<open>reset\<close>.\<close>

definition Chip8VM0 :: Chip8VM where
  "Chip8VM0 = \<lparr>st = State0, fb = \<lparr>pix = replicate kPixelCount 0\<rparr>, waitKey = False, waitReg = 0\<rparr>"

definition construct :: "Chip8VM option" where
  "construct = reset Chip8VM0"

text \<open>
  \<^verbatim>\<open>load\<close>: the file is \<open>None\<close> when it cannot be opened, else its bytes. The result
  carries the returned \<^verbatim>\<open>bool\<close>.
\<close>

definition load :: "Chip8VM \<Rightarrow> u8 list option \<Rightarrow> (Chip8VM \<times> bool) option" where
  "load vm file =
     (case file of
        None \<Rightarrow> Some (vm, False)
      | Some bytes \<Rightarrow>
          if kEntryAddr + length bytes > length (mem (st vm)) then Some (vm, False)
          else do {
            vm1 \<leftarrow> copy_bytes kEntryAddr bytes 0 vm;
            Some (set_pc 0x200 vm1, True) })"

section \<open>The opcode executor\<close>

subsection \<open>Fetch and the decoding fields\<close>

definition fetch :: "State \<Rightarrow> u16 option" where
  "fetch s = do {
     hi \<leftarrow> rd (mem s) (unat (pc s));
     lo \<leftarrow> rd (mem s) (unat (pc s) + 1);
     Some (push_bit 8 (ucast hi) OR ucast lo) }"

definition f_nnn :: "u16 \<Rightarrow> u16" where "f_nnn op = op AND 0x0FFF"
definition f_nn :: "u16 \<Rightarrow> u8" where "f_nn op = ucast (op AND 0xFF)"
definition f_n :: "u16 \<Rightarrow> nat" where "f_n op = unat (op AND 0xF)"
definition f_x :: "u16 \<Rightarrow> nat" where "f_x op = unat (drop_bit 8 op AND 0xF)"
definition f_y :: "u16 \<Rightarrow> nat" where "f_y op = unat (drop_bit 4 op AND 0xF)"

definition flag :: "bool \<Rightarrow> u8" where
  "flag b = (if b then 1 else 0)"

subsection \<open>The ALU family \<^verbatim>\<open>8xy*\<close>\<close>

text \<open>
  Each case writes \<^verbatim>\<open>v[0xF]\<close> first and then reads \<^verbatim>\<open>v[x]\<close>, \<^verbatim>\<open>v[y]\<close> again for the
  result, except \<^verbatim>\<open>8xy4\<close>, which holds the sum in a local before it writes the flag.
\<close>

definition alu :: "u16 \<Rightarrow> Chip8VM \<Rightarrow> Chip8VM option" where
  "alu op vm =
    (let x = f_x op; y = f_y op; sel = op AND 0xF in
     if sel = 0x0 then do { b \<leftarrow> get_reg vm y; set_reg x b vm }
     else if sel = 0x1 then do { a \<leftarrow> get_reg vm x; b \<leftarrow> get_reg vm y; set_reg x (a OR b) vm }
     else if sel = 0x2 then do { a \<leftarrow> get_reg vm x; b \<leftarrow> get_reg vm y; set_reg x (a AND b) vm }
     else if sel = 0x3 then do { a \<leftarrow> get_reg vm x; b \<leftarrow> get_reg vm y; set_reg x (a XOR b) vm }
     else if sel = 0x4 then do {
       a \<leftarrow> get_reg vm x; b \<leftarrow> get_reg vm y;
       let s = (ucast a + ucast b :: u16);
       vm1 \<leftarrow> set_reg 0xF (flag (s > 0xFF)) vm;
       set_reg x (ucast s) vm1 }
     else if sel = 0x5 then do {
       a \<leftarrow> get_reg vm x; b \<leftarrow> get_reg vm y;
       vm1 \<leftarrow> set_reg 0xF (flag (a > b)) vm;
       a1 \<leftarrow> get_reg vm1 x; b1 \<leftarrow> get_reg vm1 y;
       set_reg x (a1 - b1) vm1 }
     else if sel = 0x6 then do {
       a \<leftarrow> get_reg vm x;
       vm1 \<leftarrow> set_reg 0xF (a AND 1) vm;
       a1 \<leftarrow> get_reg vm1 x;
       set_reg x (drop_bit 1 a1) vm1 }
     else if sel = 0x7 then do {
       b \<leftarrow> get_reg vm y; a \<leftarrow> get_reg vm x;
       vm1 \<leftarrow> set_reg 0xF (flag (b > a)) vm;
       b1 \<leftarrow> get_reg vm1 y; a1 \<leftarrow> get_reg vm1 x;
       set_reg x (b1 - a1) vm1 }
     else if sel = 0xE then do {
       a \<leftarrow> get_reg vm x;
       vm1 \<leftarrow> set_reg 0xF (drop_bit 7 (a AND 0x80)) vm;
       a1 \<leftarrow> get_reg vm1 x;
       set_reg x (push_bit 1 a1) vm1 }
     else Some vm)"

subsection \<open>Sprite drawing \<^verbatim>\<open>Dxyn\<close>\<close>

text \<open>
  The two \<^verbatim>\<open>for\<close> loops run over the counter values \<open>[0..<8]\<close> and \<open>[0..<n]\<close> in order.
  \<^verbatim>\<open>fb.at(sx, sy)\<close> is \<^verbatim>\<open>pix[sy * 64 + sx]\<close>.
\<close>

fun draw_cols :: "u8 \<Rightarrow> nat \<Rightarrow> nat \<Rightarrow> nat \<Rightarrow> nat list \<Rightarrow> Chip8VM \<Rightarrow> Chip8VM option" where
  "draw_cols sprite px py row [] vm = Some vm"
| "draw_cols sprite px py row (col # cols) vm =
     (if sprite AND drop_bit col 0x80 \<noteq> 0 then do {
        let sx = (px + col) mod kDisplayWidth;
        let sy = (py + row) mod kDisplayHeight;
        p \<leftarrow> rd (pix (fb vm)) (sy * kDisplayWidth + sx);
        vm1 \<leftarrow> (if p = 1 then set_reg 0xF 1 vm else Some vm);
        q \<leftarrow> wr (pix (fb vm1)) (sy * kDisplayWidth + sx) (p XOR 1);
        draw_cols sprite px py row cols (vm1\<lparr>fb := (fb vm1)\<lparr>pix := q\<rparr>\<rparr>) }
      else draw_cols sprite px py row cols vm)"

fun draw_rows :: "nat \<Rightarrow> nat \<Rightarrow> nat list \<Rightarrow> Chip8VM \<Rightarrow> Chip8VM option" where
  "draw_rows px py [] vm = Some vm"
| "draw_rows px py (row # rows) vm = do {
     sprite \<leftarrow> get_mem vm (unat (I (st vm)) + row);
     vm1 \<leftarrow> draw_cols sprite px py row [0..<8] vm;
     draw_rows px py rows vm1 }"

definition draw_sprite :: "u16 \<Rightarrow> Chip8VM \<Rightarrow> Chip8VM option" where
  "draw_sprite op vm = do {
     a \<leftarrow> get_reg vm (f_x op); b \<leftarrow> get_reg vm (f_y op);
     let px = unat a mod kDisplayWidth;
     let py = unat b mod kDisplayHeight;
     vm1 \<leftarrow> set_reg 0xF 0 vm;
     draw_rows px py [0..<f_n op] vm1 }"

subsection \<open>Register block store and load, \<^verbatim>\<open>Fx55\<close> and \<^verbatim>\<open>Fx65\<close>\<close>

fun store_regs :: "nat list \<Rightarrow> Chip8VM \<Rightarrow> Chip8VM option" where
  "store_regs [] vm = Some vm"
| "store_regs (i # is) vm = do {
     r \<leftarrow> get_reg vm i;
     vm1 \<leftarrow> set_mem (unat (I (st vm)) + i) r vm;
     store_regs is vm1 }"

fun load_regs :: "nat list \<Rightarrow> Chip8VM \<Rightarrow> Chip8VM option" where
  "load_regs [] vm = Some vm"
| "load_regs (i # is) vm = do {
     m \<leftarrow> get_mem vm (unat (I (st vm)) + i);
     vm1 \<leftarrow> set_reg i m vm;
     load_regs is vm1 }"

subsection \<open>The miscellaneous family \<^verbatim>\<open>Fx**\<close>\<close>

definition misc :: "u16 \<Rightarrow> Chip8VM \<Rightarrow> Chip8VM option" where
  "misc op vm =
    (let x = f_x op; nn = f_nn op in
     if nn = 0x07 then set_reg x (DT (st vm)) vm
     else if nn = 0x0A then Some (vm\<lparr>waitKey := True, waitReg := of_nat x\<rparr>)
     else if nn = 0x15 then do { a \<leftarrow> get_reg vm x; Some (vm\<lparr>st := (st vm)\<lparr>DT := a\<rparr>\<rparr>) }
     else if nn = 0x18 then do { a \<leftarrow> get_reg vm x; Some (vm\<lparr>st := (st vm)\<lparr>ST := a\<rparr>\<rparr>) }
     else if nn = 0x1E then do { a \<leftarrow> get_reg vm x;
                                 Some (vm\<lparr>st := (st vm)\<lparr>I := I (st vm) + ucast a\<rparr>\<rparr>) }
     else if nn = 0x29 then do { a \<leftarrow> get_reg vm x;
                                 Some (vm\<lparr>st := (st vm)\<lparr>I := 0x050 + ucast (a AND 0xF) * 5\<rparr>\<rparr>) }
     else if nn = 0x33 then do {
       a \<leftarrow> get_reg vm x;
       vm1 \<leftarrow> set_mem (unat (I (st vm))) (a div 100) vm;
       vm2 \<leftarrow> set_mem (unat (I (st vm1)) + 1) ((a div 10) mod 10) vm1;
       set_mem (unat (I (st vm2)) + 2) (a mod 10) vm2 }
     else if nn = 0x55 then store_regs [0..<Suc x] vm
     else if nn = 0x65 then load_regs [0..<Suc x] vm
     else Some vm)"

subsection \<open>\<^verbatim>\<open>step\<close>\<close>

text \<open>
  \<open>exec\<close> is the \<^verbatim>\<open>switch\<close> of \<^verbatim>\<open>step\<close>, run after the program counter has advanced.
  The value of \<^verbatim>\<open>rand()\<close> is the parameter \<open>rnd\<close>. The result carries \<^verbatim>\<open>draw\<close>.
\<close>

definition nodraw :: "Chip8VM option \<Rightarrow> (Chip8VM \<times> bool) option" where
  "nodraw r = map_option (\<lambda>vm. (vm, False)) r"

definition exec :: "u16 \<Rightarrow> Chip8VM \<Rightarrow> Keypad \<Rightarrow> 32 word \<Rightarrow> (Chip8VM \<times> bool) option" where
  "exec op vm k rnd =
    (let nnn = f_nnn op; nn = f_nn op; x = f_x op; y = f_y op; fam = op AND 0xF000 in
     if fam = 0x0000 then
       (if nn = 0xE0 then Some (vm\<lparr>fb := (fb vm)\<lparr>pix := replicate (length (pix (fb vm))) 0\<rparr>\<rparr>, True)
        else if nn = 0xEE then
          (if sp (st vm) \<noteq> 0 then nodraw (do {
             let s1 = sp (st vm) - 1;
             a \<leftarrow> rd (stack (st vm)) (unat s1);
             Some (vm\<lparr>st := (st vm)\<lparr>sp := s1, pc := a\<rparr>\<rparr>) })
           else Some (vm, False))
        else Some (vm, False))
     else if fam = 0x1000 then Some (set_pc nnn vm, False)
     else if fam = 0x2000 then
       (if unat (sp (st vm)) < kStackDepth then nodraw (do {
          stk \<leftarrow> wr (stack (st vm)) (unat (sp (st vm))) (pc (st vm));
          Some (vm\<lparr>st := (st vm)\<lparr>stack := stk, sp := sp (st vm) + 1, pc := nnn\<rparr>\<rparr>) })
        else Some (vm, False))
     else if fam = 0x3000 then nodraw (do { a \<leftarrow> get_reg vm x; Some (skip (a = nn) vm) })
     else if fam = 0x4000 then nodraw (do { a \<leftarrow> get_reg vm x; Some (skip (a \<noteq> nn) vm) })
     else if fam = 0x5000 then
       (if op AND 0xF = 0 then nodraw (do { a \<leftarrow> get_reg vm x; b \<leftarrow> get_reg vm y; Some (skip (a = b) vm) })
        else Some (vm, False))
     else if fam = 0x6000 then nodraw (set_reg x nn vm)
     else if fam = 0x7000 then nodraw (do { a \<leftarrow> get_reg vm x; set_reg x (a + nn) vm })
     else if fam = 0x8000 then nodraw (alu op vm)
     else if fam = 0x9000 then
       (if op AND 0xF = 0 then nodraw (do { a \<leftarrow> get_reg vm x; b \<leftarrow> get_reg vm y; Some (skip (a \<noteq> b) vm) })
        else Some (vm, False))
     else if fam = 0xA000 then Some (vm\<lparr>st := (st vm)\<lparr>I := nnn\<rparr>\<rparr>, False)
     else if fam = 0xB000 then nodraw (do { a \<leftarrow> get_reg vm 0; Some (set_pc (nnn + ucast a) vm) })
     else if fam = 0xC000 then nodraw (set_reg x (ucast (rnd AND 0xFF) AND nn) vm)
     else if fam = 0xD000 then map_option (\<lambda>vm1. (vm1, True)) (draw_sprite op vm)
     else if fam = 0xE000 then
       (if nn = 0x9E then nodraw (do { a \<leftarrow> get_reg vm x; Some (skip (down k a) vm) })
        else if nn = 0xA1 then nodraw (do { a \<leftarrow> get_reg vm x; Some (skip (\<not> down k a) vm) })
        else Some (vm, False))
     else nodraw (misc op vm))"

definition step :: "Chip8VM \<Rightarrow> Keypad \<Rightarrow> 32 word \<Rightarrow> (Chip8VM \<times> bool) option" where
  "step vm k rnd = do {
     op \<leftarrow> fetch (st vm);
     exec op (set_pc (pc (st vm) + 2) vm) k rnd }"

section \<open>Timers and key delivery\<close>

text \<open>\<^verbatim>\<open>timerTick\<close>: the result carries whether \<^verbatim>\<open>BEEP\<close> was printed.\<close>

definition timerTick :: "Chip8VM \<Rightarrow> Chip8VM \<times> bool" where
  "timerTick vm =
    (let s0 = st vm;
         s1 = (if DT s0 > 0 then s0\<lparr>DT := DT s0 - 1\<rparr> else s0)
     in if ST s1 > 0 then
          (let s2 = s1\<lparr>ST := ST s1 - 1\<rparr> in (vm\<lparr>st := s2\<rparr>, ST s2 > 0))
        else (vm\<lparr>st := s1\<rparr>, False))"

definition feedKey :: "Chip8VM \<Rightarrow> u8 \<Rightarrow> Chip8VM option" where
  "feedKey vm key =
    (if waitKey vm then
       map_option (\<lambda>vm1. vm1\<lparr>waitKey := False\<rparr>) (set_reg (unat (waitReg vm)) key vm)
     else Some vm)"

section \<open>Representation invariant\<close>

text \<open>
  The sizes that the \<^verbatim>\<open>std::array\<close> types fix, and the ranges that the stack pointer
  and the pending register keep: \<^verbatim>\<open>sp\<close> only moves between 0 and 16, and \<^verbatim>\<open>waitReg\<close>
  is only ever assigned a 4-bit field.
\<close>

definition inv_vm :: "Chip8VM \<Rightarrow> bool" where
  "inv_vm vm \<longleftrightarrow> length (mem (st vm)) = kMemSize \<and> length (v (st vm)) = kRegCount \<and>
     length (stack (st vm)) = kStackDepth \<and> length (pix (fb vm)) = kPixelCount \<and>
     unat (sp (st vm)) \<le> kStackDepth \<and> unat (waitReg vm) < kRegCount"

section \<open>Reachable states and memory bounds\<close>

text \<open>
  The states that the public operations of \<^verbatim>\<open>Chip8VM\<close> produce from the constructor. The
  driver calls \<^verbatim>\<open>load\<close>, \<^verbatim>\<open>step\<close>, \<^verbatim>\<open>timerTick\<close> and \<^verbatim>\<open>feedKey\<close> in any order.
\<close>

inductive reachable :: "Chip8VM \<Rightarrow> bool" where
  boot: "construct = Some vm \<Longrightarrow> reachable vm"
| again: "reachable vm \<Longrightarrow> reset vm = Some vm' \<Longrightarrow> reachable vm'"
| loaded: "reachable vm \<Longrightarrow> load vm rom = Some (vm', b) \<Longrightarrow> reachable vm'"
| stepped: "reachable vm \<Longrightarrow> step vm k rnd = Some (vm', d) \<Longrightarrow> reachable vm'"
| ticked: "reachable vm \<Longrightarrow> reachable (fst (timerTick vm))"
| keyed: "reachable vm \<Longrightarrow> feedKey vm key = Some vm' \<Longrightarrow> reachable vm'"

text \<open>
  \<open>in_bounds vm\<close>: the memory cells that the next \<^verbatim>\<open>step\<close> touches exist. These are the
  two opcode bytes at \<^verbatim>\<open>pc\<close> and \<^verbatim>\<open>pc + 1\<close>, the \<open>n\<close> sprite bytes from \<^verbatim>\<open>I\<close> for
  \<^verbatim>\<open>Dxyn\<close>, the three digits from \<^verbatim>\<open>I\<close> for \<^verbatim>\<open>Fx33\<close>, and the cells \<^verbatim>\<open>I .. I + x\<close> for
  \<^verbatim>\<open>Fx55\<close> and \<^verbatim>\<open>Fx65\<close>.
\<close>

definition in_bounds :: "Chip8VM \<Rightarrow> bool" where
  "in_bounds vm \<longleftrightarrow>
     (case fetch (st vm) of
        None \<Rightarrow> False
      | Some op \<Rightarrow>
          (op AND 0xF000 = 0xD000 \<longrightarrow> f_n op = 0 \<or> unat (I (st vm)) + f_n op \<le> kMemSize) \<and>
          (op AND 0xF000 = 0xF000 \<and> f_nn op = 0x33 \<longrightarrow> unat (I (st vm)) + 2 < kMemSize) \<and>
          (op AND 0xF000 = 0xF000 \<and> (f_nn op = 0x55 \<or> f_nn op = 0x65) \<longrightarrow>
             unat (I (st vm)) + f_x op < kMemSize))"

text \<open>\<open>returns_inv r\<close>: the operation returned, in a state that keeps the invariant.\<close>

definition returns_inv :: "Chip8VM option \<Rightarrow> bool" where
  "returns_inv r = (case r of None \<Rightarrow> False | Some vm' \<Rightarrow> inv_vm vm')"

section \<open>The statements of the specification\<close>

text \<open>
  The flag conventions in the specification's words. \<open>add_carry_claim r x y r'\<close>: after
  \<^verbatim>\<open>8xy4\<close> on registers \<open>r\<close>, register \<open>x\<close> holds the sum wrapped to 8 bits and register
  \<open>0xF\<close> is 1 iff the true sum exceeds 255. \<open>sub_borrow_claim r x y r'\<close>: after \<^verbatim>\<open>8xy5\<close>,
  register \<open>x\<close> holds the wrapped difference and register \<open>0xF\<close> is 1 iff \<open>Vx > Vy\<close> held
  before.
\<close>

definition add_carry_claim :: "u8 list \<Rightarrow> nat \<Rightarrow> nat \<Rightarrow> u8 list \<Rightarrow> bool" where
  "add_carry_claim r x y r' \<longleftrightarrow>
     unat (r' ! x) = (unat (r ! x) + unat (r ! y)) mod 256 \<and>
     r' ! 0xF = (if 255 < unat (r ! x) + unat (r ! y) then 1 else 0)"

definition sub_borrow_claim :: "u8 list \<Rightarrow> nat \<Rightarrow> nat \<Rightarrow> u8 list \<Rightarrow> bool" where
  "sub_borrow_claim r x y r' \<longleftrightarrow>
     uint (r' ! x) = (uint (r ! x) - uint (r ! y)) mod 256 \<and>
     r' ! 0xF = (if unat (r ! y) < unat (r ! x) then 1 else 0)"

text \<open>
  \<open>lit vm op cx cy\<close>: the sprite that \<^verbatim>\<open>Dxyn\<close> draws in state \<open>vm\<close> has a set bit whose
  target, wrapped modulo 64 and 32, is the pixel \<open>(cx, cy)\<close>. Bit 7 of a sprite byte is
  its leftmost column.
\<close>

definition lit :: "Chip8VM \<Rightarrow> u16 \<Rightarrow> nat \<Rightarrow> nat \<Rightarrow> bool" where
  "lit vm op cx cy \<longleftrightarrow>
     (\<exists>row<f_n op. \<exists>col<8.
        bit (mem (st vm) ! (unat (I (st vm)) + row)) (7 - col) \<and>
        cx = (unat (v (st vm) ! f_x op) + col) mod kDisplayWidth \<and>
        cy = (unat (v (st vm) ! f_y op) + row) mod kDisplayHeight)"

section \<open>Auxiliary notions for the draw loops\<close>

text \<open>
  \<open>tgt\<close> is the index of \<^verbatim>\<open>fb.at(sx, sy)\<close> for a row and column of the sprite; \<open>toggle\<close> is
  the body of the inner loop on the pair of pixels and registers; \<open>col_targets\<close>,
  \<open>row_targets\<close> and \<open>sprite_targets\<close> list the pixels toggled, in loop order.
\<close>

definition tgt :: "nat \<Rightarrow> nat \<Rightarrow> nat \<Rightarrow> nat \<Rightarrow> nat" where
  "tgt px py row col = ((py + row) mod kDisplayHeight) * kDisplayWidth + (px + col) mod kDisplayWidth"

definition toggle :: "nat \<Rightarrow> u8 list \<times> u8 list \<Rightarrow> u8 list \<times> u8 list" where
  "toggle t s = ((fst s)[t := fst s ! t XOR 1], if fst s ! t = 1 then (snd s)[0xF := 1] else snd s)"

definition put :: "u8 list \<times> u8 list \<Rightarrow> Chip8VM \<Rightarrow> Chip8VM" where
  "put s vm = vm\<lparr>st := (st vm)\<lparr>v := snd s\<rparr>, fb := (fb vm)\<lparr>pix := fst s\<rparr>\<rparr>"

definition col_targets :: "u8 \<Rightarrow> nat \<Rightarrow> nat \<Rightarrow> nat \<Rightarrow> nat list \<Rightarrow> nat list" where
  "col_targets sprite px py row cols =
     map (tgt px py row) (filter (\<lambda>c. sprite AND drop_bit c 0x80 \<noteq> 0) cols)"

definition row_targets :: "u8 list \<Rightarrow> nat \<Rightarrow> nat \<Rightarrow> nat \<Rightarrow> nat list \<Rightarrow> nat list" where
  "row_targets m base px py rows =
     concat (map (\<lambda>row. col_targets (m ! (base + row)) px py row [0..<8]) rows)"

definition sprite_targets :: "Chip8VM \<Rightarrow> u16 \<Rightarrow> nat list" where
  "sprite_targets vm op =
     row_targets (mem (st vm)) (unat (I (st vm)))
       (unat (v (st vm) ! f_x op) mod kDisplayWidth) (unat (v (st vm) ! f_y op) mod kDisplayHeight)
       [0..<f_n op]"

section \<open>Concrete machines\<close>

text \<open>
  States for concrete runs. \<open>booted\<close> is the machine that the constructor yields: all
  zero, with the font at \<open>0x050\<close>. \<open>machine prog regs\<close> is a machine after \<^verbatim>\<open>reset\<close> (font
  left out) with a program at \<open>0x200\<close> and the leading registers given; \<open>with_timers\<close>,
  \<open>with_I\<close>, \<open>with_pixel\<close> and \<open>full_stack\<close> set single fields. \<open>Keypad0\<close> is a keypad with
  no key down.
\<close>

definition booted :: Chip8VM where
  "booted = Chip8VM0\<lparr>st := State0\<lparr>mem := replicate 80 0 @ kFontSprites @ replicate 3936 0\<rparr>\<rparr>"

definition machine :: "u8 list \<Rightarrow> u8 list \<Rightarrow> Chip8VM" where
  "machine prog regs = Chip8VM0\<lparr>st := State0\<lparr>
     mem := replicate kEntryAddr 0 @ prog @ replicate (kMemSize - kEntryAddr - length prog) 0,
     v := regs @ replicate (kRegCount - length regs) 0\<rparr>\<rparr>"

definition Keypad0 :: Keypad where
  "Keypad0 = \<lparr>keys = replicate kKeyCount False\<rparr>"

definition with_timers :: "u8 \<Rightarrow> u8 \<Rightarrow> Chip8VM" where
  "with_timers d s = Chip8VM0\<lparr>st := State0\<lparr>DT := d, ST := s\<rparr>\<rparr>"

definition full_stack :: "Chip8VM \<Rightarrow> Chip8VM" where
  "full_stack vm = vm\<lparr>st := (st vm)\<lparr>sp := 16\<rparr>\<rparr>"

definition with_I :: "u16 \<Rightarrow> Chip8VM \<Rightarrow> Chip8VM" where
  "with_I a vm = vm\<lparr>st := (st vm)\<lparr>I := a\<rparr>\<rparr>"

definition with_pixel :: "nat \<Rightarrow> Chip8VM \<Rightarrow> Chip8VM" where
  "with_pixel j vm = vm\<lparr>fb := (fb vm)\<lparr>pix := (pix (fb vm))[j := 1]\<rparr>\<rparr>"

text \<open>
  Two draws of the one-byte sprite \<open>0x80\<close> at \<open>(0, 0)\<close>: on a blank screen, and on a
  screen whose pixel \<open>(0, 0)\<close> is already lit. \<open>after_draw p f vm\<close> is \<open>vm\<close> one
  instruction later with pixels \<open>p\<close> and flag \<open>f\<close>.
\<close>

definition after_draw :: "u8 list \<Rightarrow> u8 \<Rightarrow> Chip8VM \<Rightarrow> Chip8VM" where
  "after_draw p f vm =
     vm\<lparr>st := (st vm)\<lparr>pc := pc (st vm) + 2, v := (v (st vm))[0xF := f]\<rparr>, fb := (fb vm)\<lparr>pix := p\<rparr>\<rparr>"

definition blank_start :: Chip8VM where
  "blank_start = with_I 0x204 (machine [0xD0, 0x01, 0xD0, 0x01, 0x80] [])"

definition blank_mid :: Chip8VM where
  "blank_mid = after_draw ((pix (fb blank_start))[0 := 1]) 0 blank_start"

definition lit_start :: Chip8VM where
  "lit_start = with_pixel 0 blank_start"

definition lit_mid :: Chip8VM where
  "lit_mid = after_draw ((pix (fb lit_start))[0 := 0]) 1 lit_start"

definition lit_end :: Chip8VM where
  "lit_end = after_draw ((pix (fb lit_mid))[0 := 1]) 0 lit_mid"

text \<open>
  The machine after the constructor, \<^verbatim>\<open>load\<close> of the two bytes \<^verbatim>\<open>1F FF\<close> and one
  \<^verbatim>\<open>step\<close>: the jump has set \<^verbatim>\<open>pc\<close> to \<open>0xFFF\<close>.
\<close>

definition far_jump :: Chip8VM where
  "far_jump = booted\<lparr>st := (st booted)\<lparr>
     mem := take kEntryAddr (mem (st booted)) @ [0x1F, 0xFF] @ drop (kEntryAddr + 2) (mem (st booted)),
     pc := 0xFFF\<rparr>\<rparr>"

text \<open>
  The machine after the constructor, \<^verbatim>\<open>load\<close> of the program
  \<^verbatim>\<open>6007 6108 6209 AFFE F255 F265\<close> (\<open>store_loaded\<close>) and four calls of \<^verbatim>\<open>step\<close>
  (\<open>store_edge\<close>): \<open>V0..V2 = 7, 8, 9\<close>, \<^verbatim>\<open>I = 0xFFE\<close>, and \<^verbatim>\<open>F255\<close> is next.
\<close>

definition store_loaded :: Chip8VM where
  "store_loaded = booted\<lparr>st := (st booted)\<lparr>
     mem := take kEntryAddr (mem (st booted)) @
            [0x60, 0x07, 0x61, 0x08, 0x62, 0x09, 0xAF, 0xFE, 0xF2, 0x55, 0xF2, 0x65] @
            drop (kEntryAddr + 12) (mem (st booted)),
     pc := 0x200\<rparr>\<rparr>"

definition store_edge :: Chip8VM where
  "store_edge = store_loaded\<lparr>st := (st store_loaded)\<lparr>
     pc := 0x208, I := 0xFFE, v := (v (st store_loaded))[0 := 7, 1 := 8, 2 := 9]\<rparr>\<rparr>"

text \<open>
  A program that waits for a key into \<open>V0\<close> and then sets \<open>V0\<close> to 5: \<^verbatim>\<open>F00A 6005\<close>.
  \<open>wait_loaded\<close> is the machine after the constructor and \<^verbatim>\<open>load\<close>, \<open>wait_entered\<close> after
  the first \<^verbatim>\<open>step\<close>, \<open>wait_overrun\<close> after the second.
\<close>

definition wait_loaded :: Chip8VM where
  "wait_loaded = booted\<lparr>st := (st booted)\<lparr>
     mem := take kEntryAddr (mem (st booted)) @ [0xF0, 0x0A, 0x60, 0x05] @
            drop (kEntryAddr + 4) (mem (st booted)),
     pc := 0x200\<rparr>\<rparr>"

definition wait_entered :: Chip8VM where
  "wait_entered = wait_loaded\<lparr>st := (st wait_loaded)\<lparr>pc := 0x202\<rparr>, waitKey := True, waitReg := 0\<rparr>"

definition wait_overrun :: Chip8VM where
  "wait_overrun = wait_entered\<lparr>st := (st wait_entered)\<lparr>pc := 0x204,
     v := (v (st wait_entered))[0 := 5]\<rparr>\<rparr>"

section \<open>Basic facts\<close>

lemma f_x_less: "f_x op < 16"
  unfolding f_x_def
  by (rule le_less_trans [OF word_and_le1 [THEN word_le_nat_alt [THEN iffD1]]]) simp

lemma f_y_less: "f_y op < 16"
  unfolding f_y_def
  by (rule le_less_trans [OF word_and_le1 [THEN word_le_nat_alt [THEN iffD1]]]) simp

lemma f_n_less: "f_n op < 16"
  unfolding f_n_def
  by (rule le_less_trans [OF word_and_le1 [THEN word_le_nat_alt [THEN iffD1]]]) simp

lemma step_exec:
  "fetch (st vm) = Some op \<Longrightarrow> step vm k rnd = exec op (set_pc (pc (st vm) + 2) vm) k rnd"
  by (simp add: step_def)

section \<open>Timers\<close>

text \<open>
  Claim C4. One \<^verbatim>\<open>timerTick\<close> decrements the delay timer if it is positive, decrements
  the sound timer if it is positive, touches nothing else, and signals the tone exactly
  when the sound timer was positive and is still positive after the decrement.
\<close>

theorem timerTick_spec:
  "st (fst (timerTick vm)) =
     (st vm)\<lparr>DT := (if 0 < DT (st vm) then DT (st vm) - 1 else DT (st vm)),
             ST := (if 0 < ST (st vm) then ST (st vm) - 1 else ST (st vm))\<rparr> \<and>
   fb (fst (timerTick vm)) = fb vm \<and> waitKey (fst (timerTick vm)) = waitKey vm \<and>
   waitReg (fst (timerTick vm)) = waitReg vm \<and>
   (snd (timerTick vm) \<longleftrightarrow> 0 < ST (st vm) \<and> 0 < ST (st (fst (timerTick vm))))"
  by (simp add: timerTick_def Let_def)

text \<open>The boundary: from 1 the sound timer reaches 0 silently, from 2 it reaches 1 with the tone.\<close>

theorem timerTick_spec_witness:
  "ST (st (fst (timerTick (with_timers 0 1)))) = 0 \<and> snd (timerTick (with_timers 0 1)) = False \<and>
   ST (st (fst (timerTick (with_timers 0 2)))) = 1 \<and> snd (timerTick (with_timers 0 2)) = True \<and>
   DT (st (fst (timerTick (with_timers 7 0)))) = 6 \<and> DT (st (fst (timerTick (with_timers 0 0)))) = 0"
  using timerTick_spec [of "with_timers 0 1"] timerTick_spec [of "with_timers 0 2"]
    timerTick_spec [of "with_timers 7 0"] timerTick_spec [of "with_timers 0 0"]
  by (simp add: with_timers_def Chip8VM0_def State0_def)

section \<open>Array access, words and decoding\<close>

lemma get_reg_Some: "i < length (v (st vm)) \<Longrightarrow> get_reg vm i = Some (v (st vm) ! i)"
  by (simp add: get_reg_def rd_def)

lemma set_reg_Some:
  "i < length (v (st vm)) \<Longrightarrow>
   set_reg i x vm = Some (vm\<lparr>st := (st vm)\<lparr>v := (v (st vm))[i := x]\<rparr>\<rparr>)"
  by (simp add: set_reg_def wr_def)

lemma get_mem_Some: "i < length (mem (st vm)) \<Longrightarrow> get_mem vm i = Some (mem (st vm) ! i)"
  by (simp add: get_mem_def rd_def)

lemma set_mem_Some:
  "i < length (mem (st vm)) \<Longrightarrow>
   set_mem i x vm = Some (vm\<lparr>st := (st vm)\<lparr>mem := (mem (st vm))[i := x]\<rparr>\<rparr>)"
  by (simp add: set_mem_def wr_def)

lemma fam_of_mask:
  fixes op :: u16
  assumes "op AND 0xF00F = c"
  shows "op AND 0xF000 = c AND 0xF000" and "op AND 0xF = c AND 0xF"
proof -
  have "op AND 0xF000 = (op AND 0xF00F) AND 0xF000" by (simp add: and.assoc)
  then show "op AND 0xF000 = c AND 0xF000" using assms by simp
  have "op AND 0xF = (op AND 0xF00F) AND 0xF" by (simp add: and.assoc)
  then show "op AND 0xF = c AND 0xF" using assms by simp
qed

lemma unat_u8_less: "unat (a::u8) < 256"
  using unsigned_less [of a] by simp

lemma unat_up: "unat (ucast (a::u8) :: u16) = unat a"
  using unat_u8_less [of a] by (simp add: unsigned_ucast_eq take_bit_eq_mod)

lemma unat_sum16: "unat (ucast (a::u8) + ucast (b::u8) :: u16) = unat a + unat b"
  using unat_u8_less [of a] unat_u8_less [of b]
  by (simp add: unat_word_ariths unat_up)

lemma ucast_sum: "(ucast (ucast a + ucast b :: u16) :: u8) = a + b"
proof -
  have "unat (ucast (ucast a + ucast b :: u16) :: u8) = unat (ucast a + ucast b :: u16) mod 256"
    by (simp add: unsigned_ucast_eq take_bit_eq_mod)
  then have "unat (ucast (ucast a + ucast b :: u16) :: u8) = unat (a + b)"
    by (simp only: unat_sum16) (simp add: unat_word_ariths)
  then show ?thesis by (simp only: word_unat_eq_iff)
qed

lemma carry_iff:
  "((ucast (a::u8) + ucast (b::u8) :: u16) > 0xFF) \<longleftrightarrow> unat a + unat b > 255"
  by (simp add: word_less_nat_alt unat_sum16)

lemma uint_sub: "uint ((a::u8) - b) = (uint a - uint b) mod 256"
  by (simp add: uint_word_ariths)

lemma unat_add8: "unat ((a::u8) + b) = (unat a + unat b) mod 256"
  by (simp add: unat_word_ariths)

section \<open>Stack limits\<close>

text \<open>
  Claim C7. A call \<^verbatim>\<open>2nnn\<close> with the stack full (\<open>sp = 16\<close>) and a return \<^verbatim>\<open>00EE\<close> with
  the stack empty (\<open>sp = 0\<close>) do not fault and change nothing but the program counter,
  which has advanced past the opcode.
\<close>

theorem stack_limits:
  assumes "fetch (st vm) = Some op"
    and "(op AND 0xF000 = 0x2000 \<and> sp (st vm) = 16) \<or>
         (op AND 0xF0FF = 0x00EE \<and> sp (st vm) = 0)"
  shows "step vm k rnd = Some (vm\<lparr>st := (st vm)\<lparr>pc := pc (st vm) + 2\<rparr>\<rparr>, False)"
proof -
  from assms(2) show ?thesis
  proof
    assume "op AND 0xF000 = 0x2000 \<and> sp (st vm) = 16"
    then show ?thesis using assms(1)
      by (simp add: step_exec exec_def Let_def set_pc_def)
  next
    assume a: "op AND 0xF0FF = 0x00EE \<and> sp (st vm) = 0"
    have "op AND 0xF000 = (op AND 0xF0FF) AND 0xF000" by (simp add: and.assoc)
    then have f: "op AND 0xF000 = 0" using a by simp
    have "op AND 0xFF = (op AND 0xF0FF) AND 0xFF" by (simp add: and.assoc)
    then have n: "f_nn op = 0xEE" using a by (simp add: f_nn_def)
    show ?thesis using assms(1) a f n
      by (simp add: step_exec exec_def Let_def set_pc_def)
  qed
qed

lemma fetch_machine:
  "fetch (st (machine (a # b # bs) regs)) = Some (push_bit 8 (ucast a) OR ucast b)"
  by (simp add: machine_def fetch_def rd_def Chip8VM0_def State0_def nth_append)

lemma inv_machine:
  "length prog \<le> 3584 \<Longrightarrow> length regs \<le> 16 \<Longrightarrow> inv_vm (machine prog regs)"
  by (simp add: machine_def inv_vm_def Chip8VM0_def State0_def)

theorem stack_limits_witness:
  "step (machine [0x00, 0xEE] []) Keypad0 0 =
     Some ((machine [0x00, 0xEE] [])\<lparr>st := (st (machine [0x00, 0xEE] []))\<lparr>pc := 0x202\<rparr>\<rparr>, False) \<and>
   step (full_stack (machine [0x23, 0x45] [])) Keypad0 0 =
     Some ((full_stack (machine [0x23, 0x45] []))
             \<lparr>st := (st (full_stack (machine [0x23, 0x45] [])))\<lparr>pc := 0x202\<rparr>\<rparr>, False)"
proof -
  have f1: "fetch (st (machine [0x00, 0xEE] [])) = Some 0x00EE"
    by (simp add: fetch_machine)
  have s1: "sp (st (machine [0x00, 0xEE] [])) = 0" and p1: "pc (st (machine [0x00, 0xEE] [])) = 0x200"
    by (simp_all add: machine_def Chip8VM0_def State0_def)
  have "fetch (st (full_stack (machine [0x23, 0x45] []))) = fetch (st (machine [0x23, 0x45] []))"
    by (simp add: full_stack_def fetch_def)
  then have f2: "fetch (st (full_stack (machine [0x23, 0x45] []))) = Some 0x2345"
    by (simp add: fetch_machine)
  have s2: "sp (st (full_stack (machine [0x23, 0x45] []))) = 16"
    and p2: "pc (st (full_stack (machine [0x23, 0x45] []))) = 0x200"
    by (simp_all add: full_stack_def machine_def Chip8VM0_def State0_def)
  show ?thesis
    using stack_limits [OF f1, where k = Keypad0 and rnd = 0]
      stack_limits [OF f2, where k = Keypad0 and rnd = 0] s1 s2 p1 p2
    by simp
qed

section \<open>Addition and subtraction with flag\<close>

lemma step_8xy4:
  assumes "inv_vm vm" and "fetch (st vm) = Some op" and "op AND 0xF00F = 0x8004"
  shows "step vm k rnd =
    Some (vm\<lparr>st := (st vm)\<lparr>pc := pc (st vm) + 2,
        v := (v (st vm))[0xF := flag (255 < unat (v (st vm) ! f_x op) + unat (v (st vm) ! f_y op)),
                         f_x op := v (st vm) ! f_x op + v (st vm) ! f_y op]\<rparr>\<rparr>, False)"
proof -
  have f: "op AND 0xF000 = 0x8000" and s: "op AND 0xF = 4"
    using fam_of_mask [OF assms(3)] by simp_all
  have len: "length (v (st vm)) = 16" using assms(1) by (simp add: inv_vm_def)
  show ?thesis
    using assms(2) f s f_x_less [of op] f_y_less [of op] len
    by (simp add: step_exec exec_def Let_def alu_def nodraw_def set_pc_def get_reg_Some
        set_reg_Some ucast_sum carry_iff)
qed

lemma step_8xy5:
  assumes "inv_vm vm" and "fetch (st vm) = Some op" and "op AND 0xF00F = 0x8005"
  shows "step vm k rnd =
    Some (let r1 = (v (st vm))[0xF := flag (unat (v (st vm) ! f_y op) < unat (v (st vm) ! f_x op))]
          in vm\<lparr>st := (st vm)\<lparr>pc := pc (st vm) + 2,
                                v := r1[f_x op := r1 ! f_x op - r1 ! f_y op]\<rparr>\<rparr>, False)"
proof -
  have f: "op AND 0xF000 = 0x8000" and s: "op AND 0xF = 5"
    using fam_of_mask [OF assms(3)] by simp_all
  have len: "length (v (st vm)) = 16" using assms(1) by (simp add: inv_vm_def)
  show ?thesis
    using assms(2) f s f_x_less [of op] f_y_less [of op] len
    by (simp add: step_exec exec_def Let_def alu_def nodraw_def set_pc_def get_reg_Some
        set_reg_Some word_less_nat_alt)
qed

text \<open>
  Claim C10. With destination \<open>x = 0xF\<close>, \<^verbatim>\<open>8xy4\<close> leaves in \<open>VF\<close> the low 8 bits of
  \<open>VF + Vy\<close>: the carry written first is overwritten by the result.
\<close>

theorem add_into_VF:
  assumes "inv_vm vm" and "fetch (st vm) = Some op" and "op AND 0xF00F = 0x8004"
    and "f_x op = 0xF"
  shows "step vm k rnd =
    Some (vm\<lparr>st := (st vm)\<lparr>pc := pc (st vm) + 2,
        v := (v (st vm))[0xF := v (st vm) ! 0xF + v (st vm) ! f_y op]\<rparr>\<rparr>, False) \<and>
    unat (v (st vm) ! 0xF + v (st vm) ! f_y op) =
      (unat (v (st vm) ! 0xF) + unat (v (st vm) ! f_y op)) mod 256"
  using assms(4) by (simp add: step_8xy4 [OF assms(1,2,3)] unat_add8)

text \<open>\<open>VF = 0xFF\<close>, \<open>V1 = 1\<close>, opcode \<^verbatim>\<open>8F14\<close>: the carry is 1, and \<open>VF\<close> ends as 0.\<close>

theorem add_into_VF_witness:
  "map_option (\<lambda>r. v (st (fst r)) ! 0xF)
     (step (machine [0x8F, 0x14] [0, 1, 0, 0, 0, 0, 0, 0, 0, 0, 0, 0, 0, 0, 0, 0xFF]) Keypad0 0)
   = Some 0"
proof -
  let ?m = "machine [0x8F, 0x14] [0, 1, 0, 0, 0, 0, 0, 0, 0, 0, 0, 0, 0, 0, 0, 0xFF]"
  have i: "inv_vm ?m" by (simp add: inv_machine)
  have f: "fetch (st ?m) = Some 0x8F14" by (simp add: fetch_machine)
  have m: "(0x8F14 :: u16) AND 0xF00F = 0x8004" by simp
  have x: "f_x 0x8F14 = 0xF" and y: "f_y 0x8F14 = 1" by (simp_all add: f_x_def f_y_def)
  have r: "v (st ?m) = [0, 1, 0, 0, 0, 0, 0, 0, 0, 0, 0, 0, 0, 0, 0, 0xFF]"
    by (simp add: machine_def Chip8VM0_def State0_def)
  show ?thesis
    using add_into_VF [OF i f m x, where k = Keypad0 and rnd = 0] by (simp add: y r)
qed

text \<open>
  Claim C3, as amended. When the destination \<open>x\<close> is not \<open>0xF\<close>, \<^verbatim>\<open>8xy4\<close> leaves in \<open>Vx\<close>
  the sum wrapped to 8 bits and in \<open>VF\<close> the carry; when moreover \<open>y\<close> is not \<open>0xF\<close>,
  \<^verbatim>\<open>8xy5\<close> leaves in \<open>Vx\<close> the wrapped difference and in \<open>VF\<close> 1 iff \<open>Vx > Vy\<close> held
  before.
\<close>

theorem alu_add_sub:
  assumes "inv_vm vm" and "fetch (st vm) = Some op" and "f_x op \<noteq> 0xF"
  shows "(op AND 0xF00F = 0x8004 \<longrightarrow>
            (\<exists>vm'. step vm k rnd = Some (vm', False) \<and>
               add_carry_claim (v (st vm)) (f_x op) (f_y op) (v (st vm')))) \<and>
         (op AND 0xF00F = 0x8005 \<and> f_y op \<noteq> 0xF \<longrightarrow>
            (\<exists>vm'. step vm k rnd = Some (vm', False) \<and>
               sub_borrow_claim (v (st vm)) (f_x op) (f_y op) (v (st vm'))))"
proof -
  have len: "length (v (st vm)) = 16" using assms(1) by (simp add: inv_vm_def)
  show ?thesis
    using assms(3) f_x_less [of op] f_y_less [of op] len
    by (auto simp add: step_8xy4 [OF assms(1,2)] step_8xy5 [OF assms(1,2)] add_carry_claim_def
        sub_borrow_claim_def Let_def flag_def unat_add8 uint_sub)
qed

text \<open>
  The four runs of the specification, on registers 0 and 1: \<open>0xFF + 1\<close>, \<open>1 + 1\<close>,
  \<open>5 - 3\<close> and \<open>3 - 5\<close>.
\<close>

theorem alu_add_sub_witness:
  "(\<exists>vm'. step (machine [0x80, 0x14] [0xFF, 1]) Keypad0 0 = Some (vm', False) \<and>
      unat (v (st vm') ! 0) = 0 \<and> v (st vm') ! 0xF = 1) \<and>
   (\<exists>vm'. step (machine [0x80, 0x14] [1, 1]) Keypad0 0 = Some (vm', False) \<and>
      unat (v (st vm') ! 0) = 2 \<and> v (st vm') ! 0xF = 0) \<and>
   (\<exists>vm'. step (machine [0x80, 0x15] [5, 3]) Keypad0 0 = Some (vm', False) \<and>
      uint (v (st vm') ! 0) = 2 \<and> v (st vm') ! 0xF = 1) \<and>
   (\<exists>vm'. step (machine [0x80, 0x15] [3, 5]) Keypad0 0 = Some (vm', False) \<and>
      uint (v (st vm') ! 0) = 254 \<and> v (st vm') ! 0xF = 0)"
proof -
  have i: "inv_vm (machine [a, b] [c, d])" for a b c d by (simp add: inv_machine)
  have f4: "fetch (st (machine [0x80, 0x14] [c, d])) = Some 0x8014" for c d
    by (simp add: fetch_machine)
  have f5: "fetch (st (machine [0x80, 0x15] [c, d])) = Some 0x8015" for c d
    by (simp add: fetch_machine)
  have x4: "f_x 0x8014 = 0" and y4: "f_y 0x8014 = 1" and x5: "f_x 0x8015 = 0" and y5: "f_y 0x8015 = 1"
    by (simp_all add: f_x_def f_y_def)
  have n4: "f_x 0x8014 \<noteq> 0xF" and n5: "f_x 0x8015 \<noteq> 0xF" by (simp_all add: x4 x5)
  have r: "v (st (machine p [c, d])) ! 0 = c" "v (st (machine p [c, d])) ! Suc 0 = d" for p c d
    by (simp_all add: machine_def Chip8VM0_def State0_def)
  have m4: "(0x8014 :: u16) AND 0xF00F = 0x8004" and m5: "(0x8015 :: u16) AND 0xF00F = 0x8005"
    by simp_all
  show ?thesis
    using alu_add_sub [OF i f4 [of "0xFF" 1] n4, where k = Keypad0 and rnd = 0]
      alu_add_sub [OF i f4 [of "1" 1] n4, where k = Keypad0 and rnd = 0]
      alu_add_sub [OF i f5 [of "5" 3] n5, where k = Keypad0 and rnd = 0]
      alu_add_sub [OF i f5 [of "3" 5] n5, where k = Keypad0 and rnd = 0]
    by (simp add: m4 m5 x4 y4 x5 y5 r add_carry_claim_def sub_borrow_claim_def)
      (simp add: numeral_2_eq_2)
qed

text \<open>
  Where the claim as stated fails: \<^verbatim>\<open>8F14\<close> with \<open>VF = 0xFF\<close>, \<open>V1 = 1\<close> ends with
  \<open>VF = 0\<close> although the sum exceeds 255; \<^verbatim>\<open>80F5\<close> with \<open>V0 = 5\<close>, \<open>VF = 3\<close> ends with
  \<open>V0 = 4\<close>, since the subtrahend is read after the flag has replaced it.
\<close>

theorem alu_add_sub_counterexample:
  "step (machine [0x8F, 0x14] [0, 1, 0, 0, 0, 0, 0, 0, 0, 0, 0, 0, 0, 0, 0, 0xFF]) Keypad0 0 =
     Some ((machine [0x8F, 0x14] [0, 1, 0, 0, 0, 0, 0, 0, 0, 0, 0, 0, 0, 0, 0, 0xFF])
       \<lparr>st := (st (machine [0x8F, 0x14] [0, 1, 0, 0, 0, 0, 0, 0, 0, 0, 0, 0, 0, 0, 0, 0xFF]))
          \<lparr>pc := 0x202, v := [0, 1, 0, 0, 0, 0, 0, 0, 0, 0, 0, 0, 0, 0, 0, 0]\<rparr>\<rparr>, False) \<and>
   \<not> add_carry_claim [0, 1, 0, 0, 0, 0, 0, 0, 0, 0, 0, 0, 0, 0, 0, 0xFF] 0xF 1
       [0, 1, 0, 0, 0, 0, 0, 0, 0, 0, 0, 0, 0, 0, 0, 0] \<and>
   step (machine [0x80, 0xF5] [5, 0, 0, 0, 0, 0, 0, 0, 0, 0, 0, 0, 0, 0, 0, 3]) Keypad0 0 =
     Some ((machine [0x80, 0xF5] [5, 0, 0, 0, 0, 0, 0, 0, 0, 0, 0, 0, 0, 0, 0, 3])
       \<lparr>st := (st (machine [0x80, 0xF5] [5, 0, 0, 0, 0, 0, 0, 0, 0, 0, 0, 0, 0, 0, 0, 3]))
          \<lparr>pc := 0x202, v := [4, 0, 0, 0, 0, 0, 0, 0, 0, 0, 0, 0, 0, 0, 0, 1]\<rparr>\<rparr>, False) \<and>
   \<not> sub_borrow_claim [5, 0, 0, 0, 0, 0, 0, 0, 0, 0, 0, 0, 0, 0, 0, 3] 0 0xF
       [4, 0, 0, 0, 0, 0, 0, 0, 0, 0, 0, 0, 0, 0, 0, 1]"
proof -
  let ?m1 = "machine [0x8F, 0x14] [0, 1, 0, 0, 0, 0, 0, 0, 0, 0, 0, 0, 0, 0, 0, 0xFF]"
  let ?m2 = "machine [0x80, 0xF5] [5, 0, 0, 0, 0, 0, 0, 0, 0, 0, 0, 0, 0, 0, 0, 3]"
  have i1: "inv_vm ?m1" and i2: "inv_vm ?m2" by (simp_all add: inv_machine)
  have f1: "fetch (st ?m1) = Some 0x8F14" and f2: "fetch (st ?m2) = Some 0x80F5"
    by (simp_all add: fetch_machine)
  have d: "f_x 0x8F14 = 0xF" "f_y 0x8F14 = 1" "f_x 0x80F5 = 0" "f_y 0x80F5 = 0xF"
    by (simp_all add: f_x_def f_y_def)
  have r: "v (st ?m1) = [0, 1, 0, 0, 0, 0, 0, 0, 0, 0, 0, 0, 0, 0, 0, 0xFF]"
    "v (st ?m2) = [5, 0, 0, 0, 0, 0, 0, 0, 0, 0, 0, 0, 0, 0, 0, 3]"
    "pc (st ?m1) = 0x200" "pc (st ?m2) = 0x200"
    by (simp_all add: machine_def Chip8VM0_def State0_def)
  have s1: "step ?m1 Keypad0 0 =
     Some (?m1\<lparr>st := (st ?m1)\<lparr>pc := 0x202, v := [0, 1, 0, 0, 0, 0, 0, 0, 0, 0, 0, 0, 0, 0, 0, 0]\<rparr>\<rparr>, False)"
    using step_8xy4 [OF i1 f1, where k = Keypad0 and rnd = 0] by (simp add: d r flag_def)
  have s2: "step ?m2 Keypad0 0 =
     Some (?m2\<lparr>st := (st ?m2)\<lparr>pc := 0x202, v := [4, 0, 0, 0, 0, 0, 0, 0, 0, 0, 0, 0, 0, 0, 0, 1]\<rparr>\<rparr>, False)"
    using step_8xy5 [OF i2 f2, where k = Keypad0 and rnd = 0] by (simp add: d r flag_def Let_def)
  show ?thesis
    using s1 s2 by (simp add: add_carry_claim_def sub_borrow_claim_def)
qed

section \<open>Program load\<close>

lemma copy_bytes_Some:
  "base + i + length bs \<le> length (mem (st vm)) \<Longrightarrow>
   copy_bytes base bs i vm =
     Some (vm\<lparr>st := (st vm)\<lparr>mem := take (base + i) (mem (st vm)) @ bs @
                                   drop (base + i + length bs) (mem (st vm))\<rparr>\<rparr>)"
proof (induction bs arbitrary: i vm)
  case Nil
  then show ?case by simp
next
  case (Cons b bs)
  let ?m = "mem (st vm)"
  have lt: "base + i < length ?m" using Cons.prems by simp
  have eq: "take (Suc (base + i)) (?m[base + i := b]) = take (base + i) ?m @ [b]"
    using lt by (simp add: take_Suc_conv_app_nth)
  show ?case
    using Cons.prems lt eq
    by (simp add: set_mem_Some Cons.IH)
qed

lemma length_font: "length kFontSprites = 80"
  by (simp add: kFontSprites_def)

lemma construct_eq: "construct = Some booted"
proof -
  let ?vm = "Chip8VM0\<lparr>st := State0, fb := (fb Chip8VM0)\<lparr>pix := replicate kPixelCount 0\<rparr>\<rparr>"
  have e: "?vm = Chip8VM0" by (simp add: Chip8VM0_def)
  have m: "mem (st Chip8VM0) = replicate 4096 0" by (simp add: Chip8VM0_def State0_def)
  have l: "0x050 + 0 + length kFontSprites \<le> length (mem (st Chip8VM0))"
    by (simp add: m length_font)
  have s: "st Chip8VM0 = State0" by (simp add: Chip8VM0_def)
  show ?thesis
    unfolding construct_def reset_def e booted_def
    by (simp only: copy_bytes_Some [OF l]) (simp add: m length_font s State0_def)
qed

text \<open>
  Claim C9. \<^verbatim>\<open>load\<close> always returns; it reports failure exactly when the image cannot
  be read or \<open>0x200\<close> plus its length exceeds 4096, and then the machine is unchanged. On
  success the bytes lie unmodified from \<open>0x200\<close>, every other memory cell (the font
  region among them) and every other field keeps its value, and the program counter is
  \<open>0x200\<close>.
\<close>

theorem load_spec:
  assumes "length (mem (st vm)) = kMemSize"
  shows "\<exists>vm' ok. load vm rom = Some (vm', ok) \<and>
     (\<not> ok \<longleftrightarrow> rom = None \<or> (\<exists>bs. rom = Some bs \<and> kMemSize < 0x200 + length bs)) \<and>
     (\<not> ok \<longrightarrow> vm' = vm) \<and>
     (ok \<longrightarrow> (\<exists>bs. rom = Some bs \<and>
        (\<forall>i<length bs. mem (st vm') ! (0x200 + i) = bs ! i) \<and>
        (\<forall>j<kMemSize. j < 0x200 \<or> 0x200 + length bs \<le> j \<longrightarrow> mem (st vm') ! j = mem (st vm) ! j) \<and>
        length (mem (st vm')) = kMemSize \<and>
        pc (st vm') = 0x200 \<and>
        vm' = vm\<lparr>st := (st vm)\<lparr>mem := mem (st vm'), pc := 0x200\<rparr>\<rparr>))"
proof (cases rom)
  case None
  then have "load vm rom = Some (vm, False)" by (simp add: load_def)
  then show ?thesis using None by (intro exI [of _ vm] exI [of _ False]) simp
next
  case (Some bs)
  show ?thesis
  proof (cases "kMemSize < 0x200 + length bs")
    case True
    then have "load vm rom = Some (vm, False)" using Some assms by (simp add: load_def)
    then show ?thesis using Some True by (intro exI [of _ vm] exI [of _ False]) simp
  next
    case False
    then have l: "kEntryAddr + 0 + length bs \<le> length (mem (st vm))" using assms by simp
    let ?m = "take kEntryAddr (mem (st vm)) @ bs @ drop (kEntryAddr + length bs) (mem (st vm))"
    let ?vm = "vm\<lparr>st := (st vm)\<lparr>mem := ?m, pc := 0x200\<rparr>\<rparr>"
    have ld: "load vm rom = Some (?vm, True)"
      using Some False assms by (simp add: load_def copy_bytes_Some [OF l] set_pc_def)
    have a: "\<forall>i<length bs. ?m ! (0x200 + i) = bs ! i"
      using False assms by (simp add: nth_append)
    have b: "\<forall>j<kMemSize. j < 0x200 \<or> 0x200 + length bs \<le> j \<longrightarrow> ?m ! j = mem (st vm) ! j"
      using False assms by (auto simp add: nth_append)
    have c: "length ?m = kMemSize" using False assms by simp
    show ?thesis
      using Some False ld a b c by (intro exI [of _ ?vm] exI [of _ True]) simp
  qed
qed


lemma booted_fields:
  "length (mem (st booted)) = kMemSize" "pc (st booted) = 0x200" "mem (st booted) ! 0x50 = 0xF0"
  by (simp_all add: booted_def Chip8VM0_def State0_def length_font nth_append kFontSprites_def)

theorem load_spec_witness:
  "(\<exists>vm'. load booted (Some [0x12, 0x34]) = Some (vm', True) \<and>
      mem (st vm') ! 0x200 = 0x12 \<and> mem (st vm') ! 0x201 = 0x34 \<and>
      mem (st vm') ! 0x50 = 0xF0 \<and> pc (st vm') = 0x200) \<and>
   load booted None = Some (booted, False) \<and>
   load booted (Some (replicate 3585 0)) = Some (booted, False)"
proof -
  from load_spec [OF booted_fields(1), of "Some [0x12, 0x34]"]
  obtain vm1 ok1 where 1: "load booted (Some [0x12, 0x34]) = Some (vm1, ok1)"
    and nk: "(\<not> ok1) = (Some [0x12, 0x34 :: u8] = None \<or>
               (\<exists>bs. Some [0x12, 0x34 :: u8] = Some bs \<and> kMemSize < 0x200 + length bs))"
    and sc: "ok1 \<longrightarrow> (\<exists>bs. Some [0x12, 0x34] = Some bs \<and>
        (\<forall>i<length bs. mem (st vm1) ! (0x200 + i) = bs ! i) \<and>
        (\<forall>j<kMemSize. j < 0x200 \<or> 0x200 + length bs \<le> j \<longrightarrow>
           mem (st vm1) ! j = mem (st booted) ! j) \<and>
        length (mem (st vm1)) = kMemSize \<and>
        pc (st vm1) = 0x200 \<and>
        vm1 = booted\<lparr>st := (st booted)\<lparr>mem := mem (st vm1), pc := 0x200\<rparr>\<rparr>)"
    by blast
  have ok1: "ok1" using nk by simp
  have b1: "\<forall>i<length [0x12, 0x34 :: u8]. mem (st vm1) ! (0x200 + i) = [0x12, 0x34] ! i"
    and f1: "\<forall>j<kMemSize. j < 0x200 \<or> 0x200 + length [0x12, 0x34 :: u8] \<le> j \<longrightarrow>
           mem (st vm1) ! j = mem (st booted) ! j"
    and p1: "pc (st vm1) = 0x200"
    using sc ok1 by simp_all
  have a: "mem (st vm1) ! 0x200 = 0x12" using b1 [rule_format, of 0] by simp
  have b: "mem (st vm1) ! 0x201 = 0x34" using b1 [rule_format, of 1] by simp
  have c: "mem (st vm1) ! 0x50 = 0xF0" using f1 [rule_format, of "0x50"] by (simp add: booted_fields)
  from load_spec [OF booted_fields(1), of None]
  have 2: "load booted None = Some (booted, False)" by auto
  from load_spec [OF booted_fields(1), of "Some (replicate 3585 0)"]
  have 3: "load booted (Some (replicate 3585 0)) = Some (booted, False)" by auto
  show ?thesis using 1 ok1 a b c p1 2 3 by simp
qed

section \<open>Sprite drawing\<close>

lemma tgt_less: "tgt px py row col < 2048"
proof -
  have "(py + row) mod 32 < 32" "(px + col) mod 64 < 64" by simp_all
  then show ?thesis unfolding tgt_def by linarith
qed

lemma length_toggle [simp]:
  "length (fst (toggle t s)) = length (fst s)" "length (snd (toggle t s)) = length (snd s)"
  by (simp_all add: toggle_def)

lemma length_fold_toggle [simp]:
  "length (fst (fold toggle ts s)) = length (fst s)" "length (snd (fold toggle ts s)) = length (snd s)"
  by (induction ts arbitrary: s) simp_all

lemma put_put [simp]: "put s (put s' vm) = put s vm"
  by (simp add: put_def)

lemma put_fields [simp]:
  "pix (fb (put s vm)) = fst s" "v (st (put s vm)) = snd s" "mem (st (put s vm)) = mem (st vm)"
  "I (st (put s vm)) = I (st vm)" "pc (st (put s vm)) = pc (st vm)"
  "stack (st (put s vm)) = stack (st vm)" "sp (st (put s vm)) = sp (st vm)"
  "waitReg (put s vm) = waitReg vm" "waitKey (put s vm) = waitKey vm"
  "DT (st (put s vm)) = DT (st vm)" "ST (st (put s vm)) = ST (st vm)"
  by (simp_all add: put_def)

lemma put_same: "put (pix (fb vm), v (st vm)) vm = vm"
  by (simp add: put_def)

lemma draw_cols_fold:
  assumes "length (pix (fb vm)) = kPixelCount" and "length (v (st vm)) = kRegCount"
  shows "draw_cols sprite px py row cols vm =
     Some (put (fold toggle (col_targets sprite px py row cols) (pix (fb vm), v (st vm))) vm)"
  using assms
proof (induction cols arbitrary: vm)
  case Nil
  then show ?case by (simp add: col_targets_def put_same)
next
  case (Cons col cols)
  let ?t = "tgt px py row col"
  have t: "?t < 2048" by (rule tgt_less)
  show ?case
  proof (cases "sprite AND drop_bit col 0x80 \<noteq> 0")
    case False
    then show ?thesis using Cons by (simp add: col_targets_def)
  next
    case True
    let ?s = "toggle ?t (pix (fb vm), v (st vm))"
    have l: "length (pix (fb (put ?s vm))) = kPixelCount" "length (v (st (put ?s vm))) = kRegCount"
      using Cons.prems by simp_all
    have step: "draw_cols sprite px py row (col # cols) vm = draw_cols sprite px py row cols (put ?s vm)"
      using True t Cons.prems
      by (simp add: rd_def wr_def set_reg_Some put_def toggle_def tgt_def Let_def)
    show ?thesis
      using True by (simp only: step Cons.IH [OF l]) (simp add: col_targets_def)
  qed
qed

lemma draw_rows_fold:
  assumes "length (pix (fb vm)) = kPixelCount" and "length (v (st vm)) = kRegCount"
    and "\<forall>r\<in>set rows. unat (I (st vm)) + r < length (mem (st vm))"
  shows "draw_rows px py rows vm =
     Some (put (fold toggle (row_targets (mem (st vm)) (unat (I (st vm))) px py rows)
                 (pix (fb vm), v (st vm))) vm)"
  using assms
proof (induction rows arbitrary: vm)
  case Nil
  then show ?case by (simp add: row_targets_def put_same)
next
  case (Cons row rows)
  let ?b = "mem (st vm) ! (unat (I (st vm)) + row)"
  let ?s = "fold toggle (col_targets ?b px py row [0..<8]) (pix (fb vm), v (st vm))"
  have r: "unat (I (st vm)) + row < length (mem (st vm))" using Cons.prems(3) by simp
  have l: "length (pix (fb (put ?s vm))) = kPixelCount" "length (v (st (put ?s vm))) = kRegCount"
    "\<forall>r\<in>set rows. unat (I (st (put ?s vm))) + r < length (mem (st (put ?s vm)))"
    using Cons.prems by simp_all
  have step: "draw_rows px py (row # rows) vm = draw_rows px py rows (put ?s vm)"
    using r by (simp add: get_mem_Some draw_cols_fold [OF Cons.prems(1,2)])
  show ?case
    by (simp only: step Cons.IH [OF l]) (simp add: row_targets_def)
qed

lemma fold_toggle_distinct:
  assumes "distinct ts" and "\<forall>t\<in>set ts. t < length P"
  shows "fold toggle ts (P, V) =
     (map (\<lambda>j. if j \<in> set ts then P ! j XOR 1 else P ! j) [0..<length P],
      if \<exists>t\<in>set ts. P ! t = 1 then V[0xF := 1] else V)"
  using assms
proof (induction ts arbitrary: P V)
  case Nil
  then show ?case by (simp add: map_nth)
next
  case (Cons t ts)
  let ?P = "P[t := P ! t XOR 1]"
  let ?V = "if P ! t = 1 then V[0xF := 1] else V"
  have d: "distinct ts" and b: "\<forall>u\<in>set ts. u < length ?P" and nt: "t \<notin> set ts"
    and tl: "t < length P"
    using Cons.prems by simp_all
  have same: "?P ! u = P ! u" if "u \<in> set ts" for u
  proof -
    have "t \<noteq> u" using that nt by blast
    then show ?thesis by simp
  qed
  have ex: "(\<exists>u\<in>set ts. ?P ! u = 1) = (\<exists>u\<in>set ts. P ! u = 1)" using same by auto
  have m: "map (\<lambda>j. if j \<in> set ts then ?P ! j XOR 1 else ?P ! j) [0..<length ?P] =
           map (\<lambda>j. if j \<in> set (t # ts) then P ! j XOR 1 else P ! j) [0..<length P]"
    using nt tl by (auto simp add: nth_list_update)
  have "fold toggle (t # ts) (P, V) = fold toggle ts (?P, ?V)" by (simp add: toggle_def)
  also have "\<dots> = (map (\<lambda>j. if j \<in> set ts then ?P ! j XOR 1 else ?P ! j) [0..<length ?P],
      if \<exists>u\<in>set ts. ?P ! u = 1 then ?V[0xF := 1] else ?V)"
    by (rule Cons.IH [OF d b])
  also have "\<dots> = (map (\<lambda>j. if j \<in> set (t # ts) then P ! j XOR 1 else P ! j) [0..<length P],
      if \<exists>u\<in>set (t # ts). P ! u = 1 then V[0xF := 1] else V)"
    unfolding m ex by auto
  finally show ?case .
qed

lemma add_mod_inj_le:
  fixes a b k n :: nat
  assumes "(k + a) mod n = (k + b) mod n" and "a \<le> b" and "b < n"
  shows "a = b"
proof -
  have "(k + b) mod n = (k + a) mod n" using assms(1) by simp
  moreover have "k + a \<le> k + b" using assms(2) by simp
  ultimately have "n dvd (k + b) - (k + a)" by (simp only: mod_eq_dvd_iff_nat)
  then have d: "n dvd b - a" by simp
  have "b - a < n" using assms(3) by simp
  then have "b - a = 0" using d by (meson dvd_imp_le not_less zero_less_iff_neq_zero)
  then show ?thesis using assms(2) by simp
qed

lemma add_mod_inj:
  fixes a b k n :: nat
  assumes "(k + a) mod n = (k + b) mod n" and "a < n" and "b < n"
  shows "a = b"
proof (cases "a \<le> b")
  case True
  then show ?thesis using assms add_mod_inj_le by blast
next
  case False
  then have "b \<le> a" by simp
  then have "b = a" using assms add_mod_inj_le [of k b n a] by simp
  then show ?thesis by simp
qed

lemma tgt_div_mod: "tgt px py r c div 64 = (py + r) mod 32" "tgt px py r c mod 64 = (px + c) mod 64"
  by (simp_all add: tgt_def)

lemma tgt_inj:
  assumes "tgt px py r c = tgt px py r' c'" and "r < 32" and "r' < 32" and "c < 64" and "c' < 64"
  shows "r = r' \<and> c = c'"
proof -
  have "(py + r) mod 32 = (py + r') mod 32" using assms(1) tgt_div_mod(1) by metis
  moreover have "(px + c) mod 64 = (px + c') mod 64" using assms(1) tgt_div_mod(2) by metis
  ultimately show ?thesis using assms(2-5) add_mod_inj [of py r 32 r'] add_mod_inj [of px c 64 c'] by simp
qed

lemma set_col_targets:
  "set (col_targets b px py r cols) = {tgt px py r c | c. c \<in> set cols \<and> b AND drop_bit c 0x80 \<noteq> 0}"
  by (auto simp add: col_targets_def)

lemma set_row_targets:
  "set (row_targets m base px py rows) =
     {tgt px py r c | r c. r \<in> set rows \<and> c < 8 \<and> m ! (base + r) AND drop_bit c 0x80 \<noteq> 0}"
  by (auto simp add: row_targets_def set_col_targets)

lemma distinct_col_targets:
  assumes "distinct cols" and "\<forall>c\<in>set cols. c < 64" and "r < 32"
  shows "distinct (col_targets b px py r cols)"
proof -
  have "inj_on (tgt px py r) (set cols)"
    using assms(2,3) by (auto intro!: inj_onI dest: tgt_inj)
  then have "inj_on (tgt px py r) (set (filter (\<lambda>c. b AND drop_bit c 0x80 \<noteq> 0) cols))"
    by (rule inj_on_subset) auto
  then show ?thesis using assms(1) by (simp add: col_targets_def distinct_map)
qed

lemma distinct_row_targets:
  assumes "distinct rows" and "\<forall>r\<in>set rows. r < 32"
  shows "distinct (row_targets m base px py rows)"
  using assms
proof (induction rows)
  case Nil
  then show ?case by (simp add: row_targets_def)
next
  case (Cons r rows)
  have e: "row_targets m base px py (r # rows) =
     col_targets (m ! (base + r)) px py r [0..<8] @ row_targets m base px py rows"
    by (simp add: row_targets_def)
  have d1: "distinct (col_targets (m ! (base + r)) px py r [0..<8])"
    using Cons.prems by (intro distinct_col_targets) auto
  have d2: "distinct (row_targets m base px py rows)" using Cons by simp
  have dj: "set (col_targets (m ! (base + r)) px py r [0..<8]) \<inter> set (row_targets m base px py rows) = {}"
  proof (rule ccontr)
    assume "\<not> ?thesis"
    then obtain t where 1: "t \<in> set (col_targets (m ! (base + r)) px py r [0..<8])"
      and 2: "t \<in> set (row_targets m base px py rows)" by auto
    from 1 obtain c where c: "t = tgt px py r c" "c < 8" by (auto simp add: set_col_targets)
    from 2 obtain r' c' where r': "t = tgt px py r' c'" "r' \<in> set rows" "c' < 8"
      by (auto simp add: set_row_targets)
    have "r = r'" using tgt_inj [of px py r c r' c'] c r' Cons.prems by auto
    then show False using r' Cons.prems by simp
  qed
  show ?case unfolding e using d1 d2 dj by simp
qed

lemma mask_bit:
  fixes b :: u8
  assumes "col < 8"
  shows "(b AND drop_bit col 0x80 \<noteq> 0) = bit b (7 - col)"
proof -
  have "col = 0 \<or> col = 1 \<or> col = 2 \<or> col = 3 \<or> col = 4 \<or> col = 5 \<or> col = 6 \<or> col = 7"
    using assms by arith
  then have "drop_bit col (0x80 :: u8) = 2 ^ (7 - col)"
    by (elim disjE) (simp_all add: drop_bit_eq_div)
  then show ?thesis by (simp add: and_exp_eq_0_iff_not_bit)
qed

lemma step_draw:
  assumes "inv_vm vm" and "fetch (st vm) = Some op" and "op AND 0xF000 = 0xD000"
    and "f_n op = 0 \<or> unat (I (st vm)) + f_n op \<le> kMemSize"
  shows "step vm k rnd =
     Some (put (fold toggle (sprite_targets vm op) (pix (fb vm), (v (st vm))[0xF := 0]))
             (set_pc (pc (st vm) + 2) vm), True)"
proof -
  let ?vm0 = "set_pc (pc (st vm) + 2) vm"
  let ?vm1 = "?vm0\<lparr>st := (st ?vm0)\<lparr>v := (v (st vm))[0xF := 0]\<rparr>\<rparr>"
  have len: "length (v (st vm)) = 16" "length (pix (fb vm)) = 2048" "length (mem (st vm)) = 4096"
    using assms(1) by (simp_all add: inv_vm_def)
  have l1: "length (pix (fb ?vm1)) = kPixelCount" "length (v (st ?vm1)) = kRegCount"
    "\<forall>r\<in>set [0..<f_n op]. unat (I (st ?vm1)) + r < length (mem (st ?vm1))"
    using len assms(4) by (auto simp add: set_pc_def)
  have e: "put s ?vm1 = put s ?vm0" for s by (simp add: put_def set_pc_def)
  have f: "pix (fb ?vm1) = pix (fb vm)" "v (st ?vm1) = (v (st vm))[0xF := 0]"
    "mem (st ?vm1) = mem (st vm)" "I (st ?vm1) = I (st vm)"
    by (simp_all add: set_pc_def)
  have d: "draw_sprite op ?vm0 =
     draw_rows (unat (v (st vm) ! f_x op) mod 64) (unat (v (st vm) ! f_y op) mod 32) [0..<f_n op] ?vm1"
    using len f_x_less [of op] f_y_less [of op]
    by (simp add: draw_sprite_def get_reg_def rd_def set_reg_def wr_def set_pc_def Let_def)
  show ?thesis
    using assms(2,3)
    by (simp only: step_exec exec_def Let_def d draw_rows_fold [OF l1] e f)
       (simp add: sprite_targets_def)
qed

lemma in_sprite_targets:
  assumes "cx < 64" and "cy < 32"
  shows "(cy * 64 + cx \<in> set (sprite_targets vm op)) = lit vm op cx cy"
proof -
  have t: "(cy * 64 + cx = tgt px py r c) = (cy = (py + r) mod 32 \<and> cx = (px + c) mod 64)"
    for px py r c
  proof
    assume a: "cy * 64 + cx = tgt px py r c"
    have "(cy * 64 + cx) div 64 = cy" "(cy * 64 + cx) mod 64 = cx" using assms by simp_all
    then show "cy = (py + r) mod 32 \<and> cx = (px + c) mod 64"
      using a tgt_div_mod [of px py r c] by simp
  next
    assume "cy = (py + r) mod 32 \<and> cx = (px + c) mod 64"
    then show "cy * 64 + cx = tgt px py r c" by (simp add: tgt_def)
  qed
  let ?px = "unat (v (st vm) ! f_x op)" and ?py = "unat (v (st vm) ! f_y op)"
  let ?b = "\<lambda>r. mem (st vm) ! (unat (I (st vm)) + r)"
  show ?thesis
  proof
    assume "cy * 64 + cx \<in> set (sprite_targets vm op)"
    then obtain r c where rc: "r < f_n op" "c < 8" "?b r AND drop_bit c 0x80 \<noteq> 0"
      and e: "cy * 64 + cx = tgt (?px mod 64) (?py mod 32) r c"
      by (auto simp add: sprite_targets_def set_row_targets)
    have "bit (?b r) (7 - c)" using rc(2,3) mask_bit by blast
    moreover have "cx = (?px + c) mod 64" "cy = (?py + r) mod 32"
      using e by (simp_all add: t mod_add_left_eq)
    ultimately show "lit vm op cx cy" unfolding lit_def using rc(1,2) by blast
  next
    assume "lit vm op cx cy"
    then obtain r c where rc: "r < f_n op" "c < 8" "bit (?b r) (7 - c)"
      and e: "cx = (?px + c) mod 64" "cy = (?py + r) mod 32"
      unfolding lit_def by blast
    have m: "?b r AND drop_bit c 0x80 \<noteq> 0" using rc(2,3) mask_bit by blast
    have "cy * 64 + cx = tgt (?px mod 64) (?py mod 32) r c"
      using e by (simp add: tgt_def mod_add_left_eq)
    then show "cy * 64 + cx \<in> set (sprite_targets vm op)"
      unfolding sprite_targets_def set_row_targets using rc(1,2) m by auto
  qed
qed

lemma hit_sprite_targets:
  "(\<exists>t\<in>set (sprite_targets vm op). P ! t = w) =
   (\<exists>cx<64. \<exists>cy<32. lit vm op cx cy \<and> P ! (cy * 64 + cx) = w)"
proof
  assume "\<exists>t\<in>set (sprite_targets vm op). P ! t = w"
  then obtain t where t: "t \<in> set (sprite_targets vm op)" "P ! t = w" by blast
  then obtain px py r c where e: "t = tgt px py r c"
    by (auto simp add: sprite_targets_def set_row_targets)
  let ?cx = "(px + c) mod 64" and ?cy = "(py + r) mod 32"
  have b: "?cx < 64" "?cy < 32" by simp_all
  have te: "t = ?cy * 64 + ?cx" using e by (simp add: tgt_def)
  then have "lit vm op ?cx ?cy" using t(1) in_sprite_targets [OF b] by simp
  then show "\<exists>cx<64. \<exists>cy<32. lit vm op cx cy \<and> P ! (cy * 64 + cx) = w"
    using b t(2) te by blast
next
  assume "\<exists>cx<64. \<exists>cy<32. lit vm op cx cy \<and> P ! (cy * 64 + cx) = w"
  then obtain cx cy where "cx < 64" "cy < 32" "lit vm op cx cy" "P ! (cy * 64 + cx) = w" by blast
  then show "\<exists>t\<in>set (sprite_targets vm op). P ! t = w"
    using in_sprite_targets [of cx cy vm op] by blast
qed

lemma distinct_sprite_targets: "distinct (sprite_targets vm op)"
  unfolding sprite_targets_def using f_n_less [of op]
  by (intro distinct_row_targets) auto

lemma sprite_targets_less: "t \<in> set (sprite_targets vm op) \<Longrightarrow> t < 2048"
  by (auto simp add: sprite_targets_def set_row_targets tgt_less)

text \<open>The result of a draw whose sprite bytes lie in memory.\<close>

lemma draw_spec_in:
  assumes "inv_vm vm" and "fetch (st vm) = Some op" and "op AND 0xF000 = 0xD000"
    and "f_n op = 0 \<or> unat (I (st vm)) + f_n op \<le> kMemSize"
  shows "\<exists>vm'. step vm k rnd = Some (vm', True) \<and>
     length (pix (fb vm')) = kPixelCount \<and>
     (\<forall>cx<64. \<forall>cy<32. pix (fb vm') ! (cy * 64 + cx) =
         pix (fb vm) ! (cy * 64 + cx) XOR (if lit vm op cx cy then 1 else 0)) \<and>
     v (st vm') ! 0xF =
       (if \<exists>cx<64. \<exists>cy<32. lit vm op cx cy \<and> pix (fb vm) ! (cy * 64 + cx) = 1 then 1 else 0) \<and>
     (\<forall>i<15. v (st vm') ! i = v (st vm) ! i)"
proof -
  let ?ts = "sprite_targets vm op"
  let ?P = "pix (fb vm)"
  let ?V = "(v (st vm))[0xF := 0]"
  let ?vm' = "put (fold toggle ?ts (?P, ?V)) (set_pc (pc (st vm) + 2) vm)"
  have len: "length (v (st vm)) = 16" "length ?P = 2048"
    using assms(1) by (simp_all add: inv_vm_def)
  have b: "\<forall>t\<in>set ?ts. t < length ?P" using sprite_targets_less len by simp
  have fd: "fold toggle ?ts (?P, ?V) =
     (map (\<lambda>j. if j \<in> set ?ts then ?P ! j XOR 1 else ?P ! j) [0..<length ?P],
      if \<exists>t\<in>set ?ts. ?P ! t = 1 then ?V[0xF := 1] else ?V)"
    by (rule fold_toggle_distinct [OF distinct_sprite_targets b])
  have s: "step vm k rnd = Some (?vm', True)" by (rule step_draw [OF assms])
  have p: "pix (fb ?vm') ! (cy * 64 + cx) = ?P ! (cy * 64 + cx) XOR (if lit vm op cx cy then 1 else 0)"
    if "cx < 64" "cy < 32" for cx cy
  proof -
    have "cy * 64 + cx < 2048" using that by simp
    then show ?thesis using len in_sprite_targets [OF that] by (simp add: fd)
  qed
  have f: "v (st ?vm') ! 0xF =
       (if \<exists>cx<64. \<exists>cy<32. lit vm op cx cy \<and> ?P ! (cy * 64 + cx) = 1 then 1 else 0)"
  proof -
    have "v (st ?vm') = (if \<exists>t\<in>set ?ts. ?P ! t = 1 then ?V[0xF := 1] else ?V)"
      by (simp add: fd)
    then have "v (st ?vm') ! 0xF = (if \<exists>t\<in>set ?ts. ?P ! t = 1 then 1 else 0)"
      using len by simp
    then show ?thesis by (simp only: hit_sprite_targets)
  qed
  have r: "v (st ?vm') ! i = v (st vm) ! i" if "i < 15" for i
    using that len by (simp add: fd)
  have l: "length (pix (fb ?vm')) = kPixelCount" using len by simp
  show ?thesis using s l p f r by blast
qed

lemma ex_less8:
  "(\<exists>c<8. P c) = (P 0 \<or> P 1 \<or> P 2 \<or> P 3 \<or> P 4 \<or> P 5 \<or> P 6 \<or> P (7::nat))"
proof -
  have "(c < 8) = (c = 0 \<or> c = 1 \<or> c = 2 \<or> c = 3 \<or> c = 4 \<or> c = 5 \<or> c = 6 \<or> c = 7)" for c :: nat
    by arith
  then show ?thesis by auto
qed

lemma with_I_fields:
  "fetch (st (with_I a vm)) = fetch (st vm)" "inv_vm (with_I a vm) = inv_vm vm"
  "I (st (with_I a vm)) = a" "v (st (with_I a vm)) = v (st vm)" "mem (st (with_I a vm)) = mem (st vm)"
  "pix (fb (with_I a vm)) = pix (fb vm)"
  by (simp_all add: with_I_def fetch_def inv_vm_def)

lemma machine_fields:
  "pix (fb (machine prog regs)) = replicate kPixelCount 0"
  "v (st (machine prog regs)) = regs @ replicate (kRegCount - length regs) 0"
  "mem (st (machine prog regs)) = replicate kEntryAddr 0 @ prog @ replicate (kMemSize - kEntryAddr - length prog) 0"
  "pc (st (machine prog regs)) = 0x200"
  by (simp_all add: machine_def Chip8VM0_def State0_def)

section \<open>Drawing twice\<close>

lemma xor1_eq1: "((w::u8) XOR 1 = 1) = (w = 0)"
proof
  assume "w XOR 1 = 1"
  then have "(w XOR 1) XOR 1 = 1 XOR 1" by simp
  then show "w = 0" by (simp add: xor.assoc)
next
  assume "w = 0" then show "w XOR 1 = 1" by simp
qed

lemma inv_put:
  "inv_vm vm \<Longrightarrow> length (fst s) = kPixelCount \<Longrightarrow> length (snd s) = kRegCount \<Longrightarrow>
   inv_vm (put s (set_pc a vm))"
  by (simp add: inv_vm_def put_def set_pc_def)

text \<open>Two successive draws whose sprite bytes lie in memory.\<close>

lemma draw_twice_in:
  assumes "inv_vm vm" and "fetch (st vm) = Some op" and "op AND 0xF000 = 0xD000"
    and "f_n op = 0 \<or> unat (I (st vm)) + f_n op \<le> kMemSize"
    and "step vm k rnd = Some (vm1, d1)"
    and "fetch (st vm1) = Some op"
    and "v (st vm1) ! f_x op = v (st vm) ! f_x op"
    and "v (st vm1) ! f_y op = v (st vm) ! f_y op"
  shows "\<exists>vm2. step vm1 k' rnd' = Some (vm2, True) \<and> pix (fb vm2) = pix (fb vm) \<and>
     v (st vm2) ! 0xF =
       (if \<exists>cx<64. \<exists>cy<32. lit vm op cx cy \<and> pix (fb vm) ! (cy * 64 + cx) = 0 then 1 else 0)"
proof -
  let ?ts = "sprite_targets vm op"
  let ?P = "pix (fb vm)"
  let ?P1 = "map (\<lambda>j. if j \<in> set ?ts then ?P ! j XOR 1 else ?P ! j) [0..<length ?P]"
  have len: "length (v (st vm)) = 16" "length ?P = 2048"
    using assms(1) by (simp_all add: inv_vm_def)
  have b: "\<forall>t\<in>set ?ts. t < length ?P" using sprite_targets_less len by simp
  have fd: "fold toggle ?ts (?P, V) =
     (?P1, if \<exists>t\<in>set ?ts. ?P ! t = 1 then V[0xF := 1] else V)" for V
    by (rule fold_toggle_distinct [OF distinct_sprite_targets b])
  have s1: "vm1 = put (fold toggle ?ts (?P, (v (st vm))[0xF := 0])) (set_pc (pc (st vm) + 2) vm)"
    using step_draw [OF assms(1-4), of k rnd] assms(5) by simp
  have i1: "inv_vm vm1"
    unfolding s1 using len by (intro inv_put assms(1)) simp_all
  have p1: "pix (fb vm1) = ?P1" unfolding s1 by (simp add: fd)
  have l1: "length (v (st vm1)) = 16" using i1 by (simp add: inv_vm_def)
  have m1: "mem (st vm1) = mem (st vm)" "I (st vm1) = I (st vm)"
    unfolding s1 by (simp_all add: set_pc_def)
  have ts1: "sprite_targets vm1 op = ?ts"
    by (simp add: sprite_targets_def m1 assms(7,8))
  have b1: "f_n op = 0 \<or> unat (I (st vm1)) + f_n op \<le> kMemSize" using assms(4) by (simp add: m1)
  let ?vm2 = "put (fold toggle ?ts (?P1, (v (st vm1))[0xF := 0])) (set_pc (pc (st vm1) + 2) vm1)"
  have s2: "step vm1 k' rnd' = Some (?vm2, True)"
    using step_draw [OF i1 assms(6,3) b1, of k' rnd'] by (simp add: ts1 p1)
  have b': "\<forall>t\<in>set ?ts. t < length ?P1" using b by simp
  have fd2: "fold toggle ?ts (?P1, V) =
     (map (\<lambda>j. if j \<in> set ?ts then ?P1 ! j XOR 1 else ?P1 ! j) [0..<length ?P1],
      if \<exists>t\<in>set ?ts. ?P1 ! t = 1 then V[0xF := 1] else V)" for V
    by (rule fold_toggle_distinct [OF distinct_sprite_targets b'])
  have rest: "map (\<lambda>j. if j \<in> set ?ts then ?P1 ! j XOR 1 else ?P1 ! j) [0..<length ?P1] = ?P"
    by (rule nth_equalityI) (simp_all add: xor.assoc)
  have hit: "(\<exists>t\<in>set ?ts. ?P1 ! t = 1) = (\<exists>t\<in>set ?ts. ?P ! t = 0)"
    using b by (auto simp add: xor1_eq1)
  have px: "pix (fb ?vm2) = ?P"
  proof -
    have "pix (fb ?vm2) = fst (fold toggle ?ts (?P1, (v (st vm1))[0xF := 0]))" by simp
    also have "\<dots> = map (\<lambda>j. if j \<in> set ?ts then ?P1 ! j XOR 1 else ?P1 ! j) [0..<length ?P1]"
      by (simp only: fd2 fst_conv)
    also have "\<dots> = ?P" by (rule rest)
    finally show ?thesis .
  qed
  have "v (st ?vm2) = snd (fold toggle ?ts (?P1, (v (st vm1))[0xF := 0]))" by simp
  also have "\<dots> = (if \<exists>t\<in>set ?ts. ?P ! t = 0 then (v (st vm1))[0xF := 0, 0xF := 1]
                        else (v (st vm1))[0xF := 0])"
    by (simp only: fd2 snd_conv hit)
  finally have "v (st ?vm2) = (if \<exists>t\<in>set ?ts. ?P ! t = 0 then (v (st vm1))[0xF := 0, 0xF := 1]
                        else (v (st vm1))[0xF := 0])" .
  then have "v (st ?vm2) ! 0xF = (if \<exists>t\<in>set ?ts. ?P ! t = 0 then 1 else 0)"
    using l1 by simp
  then have vf: "v (st ?vm2) ! 0xF =
       (if \<exists>cx<64. \<exists>cy<32. lit vm op cx cy \<and> ?P ! (cy * 64 + cx) = 0 then 1 else 0)"
    by (simp only: hit_sprite_targets)
  show ?thesis using s2 px vf by blast
qed

lemma upt8: "[0..<8] = [0, 1, 2, 3, 4, 5, 6, 7]"
  by (simp add: upt_rec)

lemma with_pixel_fields:
  "fetch (st (with_pixel j vm)) = fetch (st vm)" "inv_vm (with_pixel j vm) = inv_vm vm"
  "I (st (with_pixel j vm)) = I (st vm)" "v (st (with_pixel j vm)) = v (st vm)"
  "mem (st (with_pixel j vm)) = mem (st vm)" "pc (st (with_pixel j vm)) = pc (st vm)"
  "pix (fb (with_pixel j vm)) = (pix (fb vm))[j := 1]"
  by (simp_all add: with_pixel_def fetch_def inv_vm_def)

lemma with_I_pc: "pc (st (with_I a vm)) = pc (st vm)"
  by (simp add: with_I_def)

lemma after_draw_fields:
  "I (st (after_draw p f vm)) = I (st vm)" "v (st (after_draw p f vm)) = (v (st vm))[0xF := f]"
  "mem (st (after_draw p f vm)) = mem (st vm)" "pc (st (after_draw p f vm)) = pc (st vm) + 2"
  "pix (fb (after_draw p f vm)) = p"
  by (simp_all add: after_draw_def)

lemma inv_after_draw:
  "inv_vm vm \<Longrightarrow> length p = kPixelCount \<Longrightarrow> inv_vm (after_draw p f vm)"
  by (simp add: inv_vm_def after_draw_def)

lemma put_after_draw:
  "put (p, (v (st vm))[0xF := f]) (set_pc (pc (st vm) + 2) vm) = after_draw p f vm"
  by (simp add: put_def set_pc_def after_draw_def)

lemma twice_prog_facts:
  fixes vm :: Chip8VM
  assumes "mem (st vm) = mem (st blank_start)" and "I (st vm) = 0x204"
    and "v (st vm) ! 0 = 0"
  shows "sprite_targets vm 0xD001 = [0]"
  using assms
  by (simp add: sprite_targets_def row_targets_def col_targets_def tgt_def upt8 f_n_def f_x_def
      f_y_def blank_start_def with_I_fields machine_fields nth_append drop_bit_eq_div)

lemma blank_start_fields:
  "inv_vm blank_start" "fetch (st blank_start) = Some 0xD001" "I (st blank_start) = 0x204"
  "v (st blank_start) = replicate 16 0" "pc (st blank_start) = 0x200"
  "pix (fb blank_start) = replicate 2048 0"
  by (simp_all add: blank_start_def with_I_fields with_I_pc inv_machine fetch_machine machine_fields)

lemma fetch_second:
  assumes "mem (st vm) = mem (st blank_start)" and "pc (st vm) = 0x202"
  shows "fetch (st vm) = Some 0xD001"
  using assms
  by (simp add: fetch_def rd_def blank_start_def with_I_fields machine_fields nth_append)

lemma step_one_pixel:
  assumes "inv_vm vm" and "mem (st vm) = mem (st blank_start)" and "I (st vm) = 0x204"
    and "v (st vm) ! 0 = 0" and "fetch (st vm) = Some 0xD001"
  shows "step vm Keypad0 0 =
     Some (after_draw ((pix (fb vm))[0 := pix (fb vm) ! 0 XOR 1])
             (if pix (fb vm) ! 0 = 1 then 1 else 0) vm, True)"
proof -
  have b: "f_n 0xD001 = 0 \<or> unat (I (st vm)) + f_n 0xD001 \<le> kMemSize"
    by (simp add: assms(3) f_n_def)
  have t: "sprite_targets vm 0xD001 = [0]" by (rule twice_prog_facts [OF assms(2,3,4)])
  have m: "(0xD001 :: u16) AND 0xF000 = 0xD000" by simp
  have s: "step vm Keypad0 0 =
     Some (put (fold toggle [0] (pix (fb vm), (v (st vm))[0xF := 0]))
             (set_pc (pc (st vm) + 2) vm), True)"
    using step_draw [OF assms(1,5) m b, where k = Keypad0 and rnd = 0] by (simp only: t)
  have "fold toggle [0] (pix (fb vm), (v (st vm))[0xF := 0]) =
     ((pix (fb vm))[0 := pix (fb vm) ! 0 XOR 1],
      (v (st vm))[0xF := (if pix (fb vm) ! 0 = 1 then 1 else 0)])"
    by (simp add: toggle_def)
  then show ?thesis using s by (simp only: put_after_draw)
qed

lemma lit_states:
  "inv_vm lit_start" "mem (st lit_start) = mem (st blank_start)" "I (st lit_start) = 0x204"
  "v (st lit_start) ! 0 = 0" "fetch (st lit_start) = Some 0xD001" "pix (fb lit_start) ! 0 = 1"
  "inv_vm lit_mid" "mem (st lit_mid) = mem (st blank_start)" "I (st lit_mid) = 0x204"
  "v (st lit_mid) ! 0 = 0" "fetch (st lit_mid) = Some 0xD001" "pix (fb lit_mid) ! 0 = 0"
proof -
  show 1: "inv_vm lit_start" "mem (st lit_start) = mem (st blank_start)" "I (st lit_start) = 0x204"
    "v (st lit_start) ! 0 = 0" "fetch (st lit_start) = Some 0xD001" "pix (fb lit_start) ! 0 = 1"
    by (simp_all add: lit_start_def with_pixel_fields blank_start_fields)
  have l: "length (pix (fb lit_start)) = 2048" using 1(1) by (simp add: inv_vm_def)
  show "inv_vm lit_mid" unfolding lit_mid_def using 1(1) l by (intro inv_after_draw) simp_all
  show m: "mem (st lit_mid) = mem (st blank_start)" "I (st lit_mid) = 0x204" "v (st lit_mid) ! 0 = 0"
    using 1 by (simp_all add: lit_mid_def after_draw_fields)
  have "pc (st lit_mid) = 0x202"
    by (simp add: lit_mid_def after_draw_fields lit_start_def with_pixel_fields blank_start_fields)
  then show "fetch (st lit_mid) = Some 0xD001" using m(1) by (rule fetch_second [rotated])
  show "pix (fb lit_mid) ! 0 = 0" using l by (simp add: lit_mid_def after_draw_fields)
qed

section \<open>Register block store and load\<close>

lemma misc_of_mask:
  fixes op :: u16
  assumes "op AND 0xF0FF = c"
  shows "op AND 0xF000 = c AND 0xF000" and "f_nn op = ucast (c AND 0xFF)"
proof -
  have "op AND 0xF000 = (op AND 0xF0FF) AND 0xF000" by (simp add: and.assoc)
  then show "op AND 0xF000 = c AND 0xF000" using assms by simp
  have "op AND 0xFF = (op AND 0xF0FF) AND 0xFF" by (simp add: and.assoc)
  then show "f_nn op = ucast (c AND 0xFF)" using assms by (simp add: f_nn_def)
qed

lemma store_regs_append:
  "store_regs (xs @ ys) vm = store_regs xs vm \<bind> store_regs ys"
proof (induction xs arbitrary: vm)
  case Nil
  show ?case by simp
next
  case (Cons a xs)
  have e: "store_regs (xs @ ys) = (\<lambda>y. store_regs xs y \<bind> store_regs ys)"
    by (rule ext) (rule Cons.IH)
  show ?case by (simp add: e)
qed

lemma load_regs_append:
  "load_regs (xs @ ys) vm = load_regs xs vm \<bind> load_regs ys"
proof (induction xs arbitrary: vm)
  case Nil
  show ?case by simp
next
  case (Cons a xs)
  have e: "load_regs (xs @ ys) = (\<lambda>y. load_regs xs y \<bind> load_regs ys)"
    by (rule ext) (rule Cons.IH)
  show ?case by (simp add: e)
qed

lemma store_regs_upto:
  assumes "length (v (st vm)) = kRegCount" and "n \<le> kRegCount"
    and "unat (I (st vm)) + n \<le> length (mem (st vm))"
  shows "\<exists>m'. store_regs [0..<n] vm = Some (vm\<lparr>st := (st vm)\<lparr>mem := m'\<rparr>\<rparr>) \<and>
     length m' = length (mem (st vm)) \<and>
     (\<forall>i<n. m' ! (unat (I (st vm)) + i) = v (st vm) ! i) \<and>
     (\<forall>j. j < unat (I (st vm)) \<or> unat (I (st vm)) + n \<le> j \<longrightarrow> m' ! j = mem (st vm) ! j)"
  using assms(2,3)
proof (induction n)
  case 0
  have "vm\<lparr>st := (st vm)\<lparr>mem := mem (st vm)\<rparr>\<rparr> = vm" by simp
  then show ?case by (intro exI [of _ "mem (st vm)"]) simp
next
  case (Suc n)
  let ?a = "unat (I (st vm))"
  from Suc obtain m' where s: "store_regs [0..<n] vm = Some (vm\<lparr>st := (st vm)\<lparr>mem := m'\<rparr>\<rparr>)"
    and l: "length m' = length (mem (st vm))"
    and w: "\<forall>i<n. m' ! (?a + i) = v (st vm) ! i"
    and u: "\<forall>j. j < ?a \<or> ?a + n \<le> j \<longrightarrow> m' ! j = mem (st vm) ! j"
    by auto
  let ?vm1 = "vm\<lparr>st := (st vm)\<lparr>mem := m'\<rparr>\<rparr>"
  let ?m2 = "m'[?a + n := v (st vm) ! n]"
  have n: "n < length (v (st vm))" using Suc.prems assms(1) by simp
  have a: "?a + n < length m'" using Suc.prems l by simp
  have "store_regs [n] ?vm1 = Some (vm\<lparr>st := (st vm)\<lparr>mem := ?m2\<rparr>\<rparr>)"
    using n a by (simp add: get_reg_def rd_def set_mem_def wr_def)
  then have s2: "store_regs [0..<Suc n] vm = Some (vm\<lparr>st := (st vm)\<lparr>mem := ?m2\<rparr>\<rparr>)"
    using s by (simp add: store_regs_append)
  have w2: "\<forall>i<Suc n. ?m2 ! (?a + i) = v (st vm) ! i"
    using w a by (auto simp add: nth_list_update less_Suc_eq)
  have u2: "\<forall>j. j < ?a \<or> ?a + Suc n \<le> j \<longrightarrow> ?m2 ! j = mem (st vm) ! j"
    using u by (auto simp add: nth_list_update)
  show ?case using s2 l w2 u2 by (intro exI [of _ ?m2]) simp
qed

lemma load_regs_upto:
  assumes "length (v (st vm)) = kRegCount" and "n \<le> kRegCount"
    and "unat (I (st vm)) + n \<le> length (mem (st vm))"
  shows "\<exists>r'. load_regs [0..<n] vm = Some (vm\<lparr>st := (st vm)\<lparr>v := r'\<rparr>\<rparr>) \<and>
     length r' = kRegCount \<and>
     (\<forall>i<n. r' ! i = mem (st vm) ! (unat (I (st vm)) + i)) \<and>
     (\<forall>i. n \<le> i \<longrightarrow> r' ! i = v (st vm) ! i)"
  using assms(2,3)
proof (induction n)
  case 0
  have "vm\<lparr>st := (st vm)\<lparr>v := v (st vm)\<rparr>\<rparr> = vm" by simp
  then show ?case using assms(1) by (intro exI [of _ "v (st vm)"]) simp
next
  case (Suc n)
  let ?a = "unat (I (st vm))"
  from Suc obtain r' where s: "load_regs [0..<n] vm = Some (vm\<lparr>st := (st vm)\<lparr>v := r'\<rparr>\<rparr>)"
    and l: "length r' = kRegCount"
    and w: "\<forall>i<n. r' ! i = mem (st vm) ! (?a + i)"
    and u: "\<forall>i. n \<le> i \<longrightarrow> r' ! i = v (st vm) ! i"
    by auto
  let ?vm1 = "vm\<lparr>st := (st vm)\<lparr>v := r'\<rparr>\<rparr>"
  let ?r2 = "r'[n := mem (st vm) ! (?a + n)]"
  have n: "n < length r'" using Suc.prems l by simp
  have a: "?a + n < length (mem (st vm))" using Suc.prems by simp
  have "load_regs [n] ?vm1 = Some (vm\<lparr>st := (st vm)\<lparr>v := ?r2\<rparr>\<rparr>)"
    using n a by (simp add: get_mem_def rd_def set_reg_def wr_def)
  then have s2: "load_regs [0..<Suc n] vm = Some (vm\<lparr>st := (st vm)\<lparr>v := ?r2\<rparr>\<rparr>)"
    using s by (simp add: load_regs_append)
  have w2: "\<forall>i<Suc n. ?r2 ! i = mem (st vm) ! (?a + i)"
    using w n by (auto simp add: nth_list_update less_Suc_eq)
  have u2: "\<forall>i. Suc n \<le> i \<longrightarrow> ?r2 ! i = v (st vm) ! i"
    using u by (auto simp add: nth_list_update)
  show ?case using s2 l w2 u2 by (intro exI [of _ ?r2]) simp
qed


lemma step_Fx55:
  assumes "inv_vm vm" and "fetch (st vm) = Some op" and "op AND 0xF0FF = 0xF055"
    and "unat (I (st vm)) + f_x op < kMemSize"
  shows "\<exists>m'. step vm k rnd = Some (vm\<lparr>st := (st vm)\<lparr>mem := m', pc := pc (st vm) + 2\<rparr>\<rparr>, False) \<and>
     length m' = kMemSize \<and>
     (\<forall>i\<le>f_x op. m' ! (unat (I (st vm)) + i) = v (st vm) ! i) \<and>
     (\<forall>j. j < unat (I (st vm)) \<or> unat (I (st vm)) + f_x op < j \<longrightarrow> m' ! j = mem (st vm) ! j)"
proof -
  let ?vm0 = "set_pc (pc (st vm) + 2) vm"
  have len: "length (v (st vm)) = 16" "length (mem (st vm)) = 4096"
    using assms(1) by (simp_all add: inv_vm_def)
  have d: "op AND 0xF000 = 0xF000" "f_nn op = 0x55" using misc_of_mask [OF assms(3)] by simp_all
  have e: "step vm k rnd = nodraw (store_regs [0..<Suc (f_x op)] ?vm0)"
    using assms(2) d by (simp add: step_exec exec_def misc_def Let_def)
  have f: "v (st ?vm0) = v (st vm)" "mem (st ?vm0) = mem (st vm)" "I (st ?vm0) = I (st vm)"
    by (simp_all add: set_pc_def)
  have p: "length (v (st ?vm0)) = kRegCount" "Suc (f_x op) \<le> kRegCount"
    "unat (I (st ?vm0)) + Suc (f_x op) \<le> length (mem (st ?vm0))"
    using len assms(4) f_x_less [of op] by (simp_all add: f)
  from store_regs_upto [OF p] obtain m' where
    s: "store_regs [0..<Suc (f_x op)] ?vm0 = Some (?vm0\<lparr>st := (st ?vm0)\<lparr>mem := m'\<rparr>\<rparr>)"
    and l: "length m' = length (mem (st vm))"
    and w: "\<forall>i<Suc (f_x op). m' ! (unat (I (st vm)) + i) = v (st vm) ! i"
    and u: "\<forall>j. j < unat (I (st vm)) \<or> unat (I (st vm)) + Suc (f_x op) \<le> j \<longrightarrow>
              m' ! j = mem (st vm) ! j"
    unfolding f by blast
  have r: "?vm0\<lparr>st := (st ?vm0)\<lparr>mem := m'\<rparr>\<rparr> = vm\<lparr>st := (st vm)\<lparr>mem := m', pc := pc (st vm) + 2\<rparr>\<rparr>"
    by (simp add: set_pc_def)
  have s': "step vm k rnd = Some (vm\<lparr>st := (st vm)\<lparr>mem := m', pc := pc (st vm) + 2\<rparr>\<rparr>, False)"
    by (simp only: e s r) (simp add: nodraw_def)
  have w': "\<forall>i\<le>f_x op. m' ! (unat (I (st vm)) + i) = v (st vm) ! i"
    using w by (simp add: less_Suc_eq_le)
  have u': "\<forall>j. j < unat (I (st vm)) \<or> unat (I (st vm)) + f_x op < j \<longrightarrow> m' ! j = mem (st vm) ! j"
    using u by (simp add: Suc_le_eq)
  show ?thesis using s' l len(2) w' u' by (intro exI [of _ m']) simp
qed

lemma step_Fx65:
  assumes "inv_vm vm" and "fetch (st vm) = Some op" and "op AND 0xF0FF = 0xF065"
    and "unat (I (st vm)) + f_x op < kMemSize"
  shows "\<exists>r'. step vm k rnd = Some (vm\<lparr>st := (st vm)\<lparr>v := r', pc := pc (st vm) + 2\<rparr>\<rparr>, False) \<and>
     length r' = kRegCount \<and>
     (\<forall>i\<le>f_x op. r' ! i = mem (st vm) ! (unat (I (st vm)) + i)) \<and>
     (\<forall>i. f_x op < i \<longrightarrow> r' ! i = v (st vm) ! i)"
proof -
  let ?vm0 = "set_pc (pc (st vm) + 2) vm"
  have len: "length (v (st vm)) = 16" "length (mem (st vm)) = 4096"
    using assms(1) by (simp_all add: inv_vm_def)
  have d: "op AND 0xF000 = 0xF000" "f_nn op = 0x65" using misc_of_mask [OF assms(3)] by simp_all
  have e: "step vm k rnd = nodraw (load_regs [0..<Suc (f_x op)] ?vm0)"
    using assms(2) d by (simp add: step_exec exec_def misc_def Let_def)
  have f: "v (st ?vm0) = v (st vm)" "mem (st ?vm0) = mem (st vm)" "I (st ?vm0) = I (st vm)"
    by (simp_all add: set_pc_def)
  have p: "length (v (st ?vm0)) = kRegCount" "Suc (f_x op) \<le> kRegCount"
    "unat (I (st ?vm0)) + Suc (f_x op) \<le> length (mem (st ?vm0))"
    using len assms(4) f_x_less [of op] by (simp_all add: f)
  from load_regs_upto [OF p] obtain r' where
    s: "load_regs [0..<Suc (f_x op)] ?vm0 = Some (?vm0\<lparr>st := (st ?vm0)\<lparr>v := r'\<rparr>\<rparr>)"
    and l: "length r' = kRegCount"
    and w: "\<forall>i<Suc (f_x op). r' ! i = mem (st vm) ! (unat (I (st vm)) + i)"
    and u: "\<forall>i. Suc (f_x op) \<le> i \<longrightarrow> r' ! i = v (st vm) ! i"
    unfolding f by blast
  have r: "?vm0\<lparr>st := (st ?vm0)\<lparr>v := r'\<rparr>\<rparr> = vm\<lparr>st := (st vm)\<lparr>v := r', pc := pc (st vm) + 2\<rparr>\<rparr>"
    by (simp add: set_pc_def)
  have s': "step vm k rnd = Some (vm\<lparr>st := (st vm)\<lparr>v := r', pc := pc (st vm) + 2\<rparr>\<rparr>, False)"
    by (simp only: e s r) (simp add: nodraw_def)
  have w': "\<forall>i\<le>f_x op. r' ! i = mem (st vm) ! (unat (I (st vm)) + i)"
    using w by (simp add: less_Suc_eq_le)
  have u': "\<forall>i. f_x op < i \<longrightarrow> r' ! i = v (st vm) ! i"
    using u by (simp add: Suc_le_eq)
  show ?thesis using s' l w' u' by (intro exI [of _ r']) simp
qed

lemma store_load_pair:
  assumes "inv_vm vm" and "fetch (st vm) = Some op1" and "op1 AND 0xF0FF = 0xF055"
    and "unat (I (st vm)) + f_x op1 < kMemSize"
  shows "\<exists>vm1. step vm k rnd = Some (vm1, False) \<and> I (st vm1) = I (st vm) \<and>
     (\<forall>op2. fetch (st vm1) = Some op2 \<and> op2 AND 0xF0FF = 0xF065 \<and> f_x op2 = f_x op1 \<longrightarrow>
        (\<exists>vm2. step vm1 k' rnd' = Some (vm2, False) \<and>
           (\<forall>i\<le>f_x op1. v (st vm2) ! i = v (st vm) ! i)))"
proof -
  from step_Fx55 [OF assms, of k rnd] obtain m' where
    s1: "step vm k rnd = Some (vm\<lparr>st := (st vm)\<lparr>mem := m', pc := pc (st vm) + 2\<rparr>\<rparr>, False)"
    and l: "length m' = kMemSize"
    and w: "\<forall>i\<le>f_x op1. m' ! (unat (I (st vm)) + i) = v (st vm) ! i"
    by blast
  let ?vm1 = "vm\<lparr>st := (st vm)\<lparr>mem := m', pc := pc (st vm) + 2\<rparr>\<rparr>"
  have i1: "inv_vm ?vm1" using assms(1) l by (simp add: inv_vm_def)
  have f1: "I (st ?vm1) = I (st vm)" "mem (st ?vm1) = m'" "v (st ?vm1) = v (st vm)" by simp_all
  have second: "\<exists>vm2. step ?vm1 k' rnd' = Some (vm2, False) \<and>
           (\<forall>i\<le>f_x op1. v (st vm2) ! i = v (st vm) ! i)"
    if h: "fetch (st ?vm1) = Some op2" "op2 AND 0xF0FF = 0xF065" "f_x op2 = f_x op1" for op2
  proof -
    have b: "unat (I (st ?vm1)) + f_x op2 < kMemSize" using assms(4) h(3) by simp
    from step_Fx65 [OF i1 h(1,2) b, of k' rnd'] obtain r' where
      s2: "step ?vm1 k' rnd' = Some (?vm1\<lparr>st := (st ?vm1)\<lparr>v := r', pc := pc (st ?vm1) + 2\<rparr>\<rparr>, False)"
      and w2: "\<forall>i\<le>f_x op2. r' ! i = mem (st ?vm1) ! (unat (I (st ?vm1)) + i)"
      by blast
    have "\<forall>i\<le>f_x op1. r' ! i = v (st vm) ! i" using w w2 h(3) by (simp add: f1)
    then show ?thesis using s2 by simp
  qed
  show ?thesis using s1 second by (intro exI [of _ ?vm1]) simp
qed


lemma store_regs_None:
  assumes "length (v (st vm)) = kRegCount" and "n \<le> kRegCount" and "0 < n"
    and "length (mem (st vm)) < unat (I (st vm)) + n"
  shows "store_regs [0..<n] vm = None"
  using assms(2,3,4)
proof (induction n)
  case 0
  then show ?case by simp
next
  case (Suc n)
  show ?case
  proof (cases "0 < n \<and> length (mem (st vm)) < unat (I (st vm)) + n")
    case True
    then have "store_regs [0..<n] vm = None" using Suc by simp
    then show ?thesis by (simp add: store_regs_append)
  next
    case False
    have n: "n \<le> kRegCount" using Suc.prems by simp
    have "\<exists>m'. store_regs [0..<n] vm = Some (vm\<lparr>st := (st vm)\<lparr>mem := m'\<rparr>\<rparr>) \<and>
            length m' = length (mem (st vm))"
    proof (cases "n = 0")
      case True
      have "vm\<lparr>st := (st vm)\<lparr>mem := mem (st vm)\<rparr>\<rparr> = vm" by simp
      then show ?thesis using True by (intro exI [of _ "mem (st vm)"]) simp
    next
      case nz: False
      then have le: "unat (I (st vm)) + n \<le> length (mem (st vm))" using False by simp
      from store_regs_upto [OF assms(1) n le] show ?thesis by blast
    qed
    then obtain m' where
      s: "store_regs [0..<n] vm = Some (vm\<lparr>st := (st vm)\<lparr>mem := m'\<rparr>\<rparr>)"
      and l: "length m' = length (mem (st vm))" by blast
    have "store_regs [n] (vm\<lparr>st := (st vm)\<lparr>mem := m'\<rparr>\<rparr>) = None"
      using l Suc.prems assms(1) by (simp add: get_reg_def rd_def set_mem_def wr_def)
    then show ?thesis using s by (simp add: store_regs_append)
  qed
qed

lemma step_Fx55_None:
  assumes "inv_vm vm" and "fetch (st vm) = Some op" and "op AND 0xF0FF = 0xF055"
    and "kMemSize \<le> unat (I (st vm)) + f_x op"
  shows "step vm k rnd = None"
proof -
  let ?vm0 = "set_pc (pc (st vm) + 2) vm"
  have len: "length (v (st vm)) = 16" "length (mem (st vm)) = 4096"
    using assms(1) by (simp_all add: inv_vm_def)
  have d: "op AND 0xF000 = 0xF000" "f_nn op = 0x55" using misc_of_mask [OF assms(3)] by simp_all
  have e: "step vm k rnd = nodraw (store_regs [0..<Suc (f_x op)] ?vm0)"
    using assms(2) d by (simp add: step_exec exec_def misc_def Let_def)
  have p: "length (v (st ?vm0)) = kRegCount" "Suc (f_x op) \<le> kRegCount"
    "0 < Suc (f_x op)" "length (mem (st ?vm0)) < unat (I (st ?vm0)) + Suc (f_x op)"
    using len assms(4) f_x_less [of op] by (simp_all add: set_pc_def)
  show ?thesis by (simp only: e store_regs_None [OF p]) (simp add: nodraw_def)
qed

section \<open>Totality of the executor\<close>

lemma inv_set_pc: "inv_vm (set_pc a vm) = inv_vm vm"
  by (simp add: inv_vm_def set_pc_def)

lemma alu_total:
  assumes "inv_vm vm"
  shows "\<exists>vm'. alu op vm = Some vm' \<and> inv_vm vm'"
proof -
  have x: "f_x op < 16" and y: "f_y op < 16" by (rule f_x_less, rule f_y_less)
  have l: "length (v (st vm)) = 16" using assms by (simp add: inv_vm_def)
  have i: "inv_vm (vm\<lparr>st := (st vm)\<lparr>v := r\<rparr>\<rparr>)" if "length r = 16" for r
    using assms that by (simp add: inv_vm_def)
  show ?thesis
    unfolding alu_def Let_def
    using x y l
    by (simp add: get_reg_Some set_reg_Some i assms)
qed

lemma unat_sp_dec:
  fixes s :: u8
  assumes "s \<noteq> 0" and "unat s \<le> 16"
  shows "unat (s - 1) < 16" and "unat (s - 1) \<le> 16"
proof -
  have "unat (s - 1) = unat s - 1" using assms(1) by (rule unat_minus_one)
  moreover have "0 < unat s" using assms(1) by (simp add: unat_gt_0)
  ultimately show "unat (s - 1) < 16" "unat (s - 1) \<le> 16" using assms(2) by simp_all
qed

lemma unat_sp_inc:
  fixes s :: u8
  assumes "unat s < 16"
  shows "unat (s + 1) \<le> 16"
proof -
  have "unat (s + 1) = (unat s + 1) mod 256" by (simp add: unat_word_ariths)
  then show ?thesis using assms by simp
qed

lemma unat_waitReg: "x < 16 \<Longrightarrow> unat (of_nat x :: u8) < 16"
  by (simp add: unat_of_nat)

lemma returns_inv_simps [simp]:
  "returns_inv (Some vm) = inv_vm vm" "returns_inv None = False"
  by (simp_all add: returns_inv_def)

lemma returns_inv_iff: "returns_inv r = (\<exists>vm'. r = Some vm' \<and> inv_vm vm')"
  by (cases r) simp_all

lemma returns_inv_alu:
  assumes "inv_vm vm"
  shows "returns_inv (alu op vm)"
  using alu_total [OF assms] by (simp add: returns_inv_iff)

lemma hi_nibble: "(op :: u16) AND 0xF000 = push_bit 12 (drop_bit 12 op)"
proof -
  have "(0xF000 :: u16) = NOT (mask 12)" by (simp add: mask_eq_exp_minus_1)
  moreover have "push_bit 12 (drop_bit 12 op) = op AND NOT (mask 12)"
    by (rule bit_eqI) (auto simp add: bit_simps)
  ultimately show ?thesis by simp
qed

lemma unat_hi: "unat (drop_bit 12 (op :: u16)) < 16"
proof -
  have "unat op < 65536" using unsigned_less [of op] by simp
  moreover have "unat (drop_bit 12 op) = unat op div 2 ^ 12"
    by (simp add: drop_bit_eq_div unat_div)
  ultimately show ?thesis by simp
qed

lemma fam_cases:
  fixes op :: "u16"
  shows "op AND 0xF000 \<in> {0x0000, 0x1000, 0x2000, 0x3000, 0x4000, 0x5000, 0x6000, 0x7000,
     0x8000, 0x9000, 0xA000, 0xB000, 0xC000, 0xD000, 0xE000, 0xF000}"
proof -
  let ?h = "drop_bit 12 op"
  have "unat ?h < 16" by (rule unat_hi)
  then have "unat ?h = 0 \<or> unat ?h = 1 \<or> unat ?h = 2 \<or> unat ?h = 3 \<or> unat ?h = 4 \<or>
      unat ?h = 5 \<or> unat ?h = 6 \<or> unat ?h = 7 \<or> unat ?h = 8 \<or> unat ?h = 9 \<or> unat ?h = 10 \<or>
      unat ?h = 11 \<or> unat ?h = 12 \<or> unat ?h = 13 \<or> unat ?h = 14 \<or> unat ?h = 15"
    by arith
  then have "?h = 0 \<or> ?h = 1 \<or> ?h = 2 \<or> ?h = 3 \<or> ?h = 4 \<or> ?h = 5 \<or> ?h = 6 \<or> ?h = 7 \<or>
      ?h = 8 \<or> ?h = 9 \<or> ?h = 10 \<or> ?h = 11 \<or> ?h = 12 \<or> ?h = 13 \<or> ?h = 14 \<or> ?h = 15"
    by (simp add: word_unat_eq_iff)
  then show ?thesis unfolding hi_nibble by (elim disjE) simp_all
qed

lemma map_fst_nodraw: "map_option fst (nodraw r) = r"
  by (cases r) (simp_all add: nodraw_def)

lemma exec_plain_total:
  assumes "inv_vm vm" and "op AND 0xF000 \<noteq> 0xD000" and "op AND 0xF000 \<noteq> 0xF000"
  shows "returns_inv (map_option fst (exec op vm k rnd))"
proof -
  have x: "f_x op < 16" and y: "f_y op < 16" by (rule f_x_less, rule f_y_less)
  have l: "length (v (st vm)) = 16" "length (stack (st vm)) = 16" "unat (sp (st vm)) \<le> 16"
    "length (mem (st vm)) = 4096" "length (pix (fb vm)) = 2048" "unat (waitReg vm) < 16"
    using assms(1) by (simp_all add: inv_vm_def)
  have ret: "unat (sp (st vm) - 1) < 16" "unat (sp (st vm) - 1) \<le> 16" if "sp (st vm) \<noteq> 0"
    using unat_sp_dec [OF that l(3)] by simp_all
  show ?thesis
    using fam_cases [of op] assms(2,3) x y l
    apply (elim insertE emptyE)
    apply (simp_all add: exec_def Let_def get_reg_Some set_reg_Some map_fst_nodraw rd_def wr_def
        ret unat_sp_inc returns_inv_alu [OF assms(1)] inv_vm_def skip_def set_pc_def)
    done
qed

lemma low_byte:
  fixes op :: u16
  shows "(ucast (f_nn op) :: u16) = op AND 0xFF"
proof -
  have "unat (op AND 0xFF) \<le> unat (0xFF :: u16)"
    by (rule word_and_le1 [THEN word_le_nat_alt [THEN iffD1]])
  then have "unat (op AND 0xFF) < 256" by simp
  then have "unat (ucast (f_nn op) :: u16) = unat (op AND 0xFF)"
    by (simp add: f_nn_def unsigned_ucast_eq take_bit_eq_mod unat_mod)
  then show ?thesis by (simp only: word_unat_eq_iff)
qed

lemma mask_of_misc:
  fixes op :: u16
  assumes "op AND 0xF000 = 0xF000" and "f_nn op = c"
  shows "op AND 0xF0FF = 0xF000 OR ucast c"
proof -
  have "(0xF0FF :: u16) = 0xF000 OR 0xFF" by simp
  then have "op AND 0xF0FF = (op AND 0xF000) OR (op AND 0xFF)"
    by (simp only: bit.conj_disj_distrib)
  then show ?thesis using assms low_byte [of op] by simp
qed

lemma draw_rows_append:
  "draw_rows px py (xs @ ys) vm = draw_rows px py xs vm \<bind> draw_rows px py ys"
proof (induction xs arbitrary: vm)
  case Nil
  show ?case by simp
next
  case (Cons a xs)
  have e: "draw_rows px py (xs @ ys) = (\<lambda>y. draw_rows px py xs y \<bind> draw_rows px py ys)"
    by (rule ext) (rule Cons.IH)
  show ?case by (simp add: e)
qed

lemma draw_rows_None:
  assumes "length (pix (fb vm)) = kPixelCount" and "length (v (st vm)) = kRegCount"
    and "0 < n" and "length (mem (st vm)) < unat (I (st vm)) + n"
  shows "draw_rows px py [0..<n] vm = None"
  using assms(3,4)
proof (induction n)
  case 0
  then show ?case by simp
next
  case (Suc n)
  show ?case
  proof (cases "0 < n \<and> length (mem (st vm)) < unat (I (st vm)) + n")
    case True
    then have "draw_rows px py [0..<n] vm = None" using Suc by simp
    then show ?thesis by (simp add: draw_rows_append)
  next
    case False
    then have r: "\<forall>r\<in>set [0..<n]. unat (I (st vm)) + r < length (mem (st vm))" by auto
    let ?vm1 = "put (fold toggle (row_targets (mem (st vm)) (unat (I (st vm))) px py [0..<n])
                 (pix (fb vm), v (st vm))) vm"
    have s: "draw_rows px py [0..<n] vm = Some ?vm1"
      by (rule draw_rows_fold [OF assms(1,2) r])
    have "draw_rows px py [n] ?vm1 = None"
      using Suc.prems by (simp add: get_mem_def rd_def)
    then show ?thesis using s by (simp add: draw_rows_append)
  qed
qed

lemma step_draw_None:
  assumes "inv_vm vm" and "fetch (st vm) = Some op" and "op AND 0xF000 = 0xD000"
    and "0 < f_n op" and "kMemSize < unat (I (st vm)) + f_n op"
  shows "step vm k rnd = None"
proof -
  let ?vm0 = "set_pc (pc (st vm) + 2) vm"
  let ?vm1 = "?vm0\<lparr>st := (st ?vm0)\<lparr>v := (v (st vm))[0xF := 0]\<rparr>\<rparr>"
  have len: "length (v (st vm)) = 16" "length (pix (fb vm)) = 2048" "length (mem (st vm)) = 4096"
    using assms(1) by (simp_all add: inv_vm_def)
  have l1: "length (pix (fb ?vm1)) = kPixelCount" "length (v (st ?vm1)) = kRegCount"
    "0 < f_n op" "length (mem (st ?vm1)) < unat (I (st ?vm1)) + f_n op"
    using len assms(4,5) by (simp_all add: set_pc_def)
  have d: "draw_sprite op ?vm0 =
     draw_rows (unat (v (st vm) ! f_x op) mod 64) (unat (v (st vm) ! f_y op) mod 32) [0..<f_n op] ?vm1"
    using len f_x_less [of op] f_y_less [of op]
    by (simp add: draw_sprite_def get_reg_def rd_def set_reg_def wr_def set_pc_def Let_def)
  show ?thesis
    using assms(2,3)
    by (simp only: step_exec exec_def Let_def d draw_rows_None [OF l1]) simp
qed

lemma step_draw_ok:
  assumes "inv_vm vm" and "fetch (st vm) = Some op" and "op AND 0xF000 = 0xD000"
    and "f_n op = 0 \<or> unat (I (st vm)) + f_n op \<le> kMemSize"
  shows "\<exists>vm'. step vm k rnd = Some (vm', True) \<and> inv_vm vm'"
proof -
  have len: "length (v (st vm)) = 16" "length (pix (fb vm)) = 2048"
    using assms(1) by (simp_all add: inv_vm_def)
  have "inv_vm (put (fold toggle (sprite_targets vm op) (pix (fb vm), (v (st vm))[0xF := 0]))
             (set_pc (pc (st vm) + 2) vm))"
    using len by (intro inv_put assms(1)) simp_all
  then show ?thesis using step_draw [OF assms, of k rnd] by simp
qed

lemma load_regs_None:
  assumes "length (v (st vm)) = kRegCount" and "n \<le> kRegCount" and "0 < n"
    and "length (mem (st vm)) < unat (I (st vm)) + n"
  shows "load_regs [0..<n] vm = None"
  using assms(2,3,4)
proof (induction n)
  case 0
  then show ?case by simp
next
  case (Suc n)
  show ?case
  proof (cases "0 < n \<and> length (mem (st vm)) < unat (I (st vm)) + n")
    case True
    then have "load_regs [0..<n] vm = None" using Suc by simp
    then show ?thesis by (simp add: load_regs_append)
  next
    case False
    have n: "n \<le> kRegCount" using Suc.prems by simp
    have "\<exists>r'. load_regs [0..<n] vm = Some (vm\<lparr>st := (st vm)\<lparr>v := r'\<rparr>\<rparr>)"
    proof (cases "n = 0")
      case True
      have "vm\<lparr>st := (st vm)\<lparr>v := v (st vm)\<rparr>\<rparr> = vm" by simp
      then show ?thesis using True by (intro exI [of _ "v (st vm)"]) simp
    next
      case nz: False
      then have le: "unat (I (st vm)) + n \<le> length (mem (st vm))" using False by simp
      from load_regs_upto [OF assms(1) n le] show ?thesis by blast
    qed
    then obtain r' where s: "load_regs [0..<n] vm = Some (vm\<lparr>st := (st vm)\<lparr>v := r'\<rparr>\<rparr>)"
      by blast
    have "load_regs [n] (vm\<lparr>st := (st vm)\<lparr>v := r'\<rparr>\<rparr>) = None"
      using Suc.prems by (simp add: get_mem_def rd_def)
    then show ?thesis using s by (simp add: load_regs_append)
  qed
qed

lemma step_misc:
  assumes "fetch (st vm) = Some op" and "op AND 0xF000 = 0xF000"
  shows "step vm k rnd = nodraw (misc op (set_pc (pc (st vm) + 2) vm))"
  using assms by (simp add: step_exec exec_def Let_def)

lemma step_Fx65_None:
  assumes "inv_vm vm" and "fetch (st vm) = Some op" and "op AND 0xF000 = 0xF000"
    and "f_nn op = 0x65" and "kMemSize \<le> unat (I (st vm)) + f_x op"
  shows "step vm k rnd = None"
proof -
  let ?vm0 = "set_pc (pc (st vm) + 2) vm"
  have len: "length (v (st vm)) = 16" "length (mem (st vm)) = 4096"
    using assms(1) by (simp_all add: inv_vm_def)
  have e: "step vm k rnd = nodraw (load_regs [0..<Suc (f_x op)] ?vm0)"
    using assms(4) by (simp add: step_misc [OF assms(2,3)] misc_def Let_def)
  have p: "length (v (st ?vm0)) = kRegCount" "Suc (f_x op) \<le> kRegCount"
    "0 < Suc (f_x op)" "length (mem (st ?vm0)) < unat (I (st ?vm0)) + Suc (f_x op)"
    using len assms(5) f_x_less [of op] by (simp_all add: set_pc_def)
  show ?thesis by (simp only: e load_regs_None [OF p]) (simp add: nodraw_def)
qed

lemma step_Fx33:
  assumes "inv_vm vm" and "fetch (st vm) = Some op" and "op AND 0xF000 = 0xF000"
    and "f_nn op = 0x33"
  shows "unat (I (st vm)) + 2 < kMemSize \<Longrightarrow> \<exists>vm'. step vm k rnd = Some (vm', False) \<and> inv_vm vm'"
    and "kMemSize \<le> unat (I (st vm)) + 2 \<Longrightarrow> step vm k rnd = None"
proof -
  have len: "length (v (st vm)) = 16" "length (mem (st vm)) = 4096"
    using assms(1) by (simp_all add: inv_vm_def)
  have e: "step vm k rnd = nodraw (misc op (set_pc (pc (st vm) + 2) vm))"
    by (rule step_misc [OF assms(2,3)])
  show "\<exists>vm'. step vm k rnd = Some (vm', False) \<and> inv_vm vm'" if "unat (I (st vm)) + 2 < kMemSize"
    using that len assms(1,4) f_x_less [of op]
    by (simp add: e misc_def Let_def nodraw_def get_reg_def rd_def set_mem_def wr_def set_pc_def
        inv_vm_def)
  show "step vm k rnd = None" if "kMemSize \<le> unat (I (st vm)) + 2"
    using that len assms(4) f_x_less [of op]
    by (simp add: e misc_def Let_def nodraw_def get_reg_def rd_def set_mem_def wr_def set_pc_def)
qed

lemma step_misc_plain:
  assumes "inv_vm vm" and "fetch (st vm) = Some op" and "op AND 0xF000 = 0xF000"
    and "f_nn op \<noteq> 0x33" and "f_nn op \<noteq> 0x55" and "f_nn op \<noteq> 0x65"
  shows "\<exists>vm'. step vm k rnd = Some (vm', False) \<and> inv_vm vm'"
proof -
  have len: "length (v (st vm)) = 16" using assms(1) by (simp add: inv_vm_def)
  show ?thesis
    using len assms(1,4,5,6) f_x_less [of op]
    by (simp add: step_misc [OF assms(2,3)] misc_def Let_def nodraw_def get_reg_def rd_def
        set_reg_def wr_def set_pc_def inv_vm_def unat_waitReg)
qed

lemma step_cases:
  assumes "inv_vm vm"
  shows "if in_bounds vm then \<exists>vm' d. step vm k rnd = Some (vm', d) \<and> inv_vm vm'
         else step vm k rnd = None"
proof (cases "fetch (st vm)")
  case None
  then show ?thesis by (simp add: in_bounds_def step_def)
next
  case (Some op)
  have len: "length (mem (st vm)) = 4096" using assms by (simp add: inv_vm_def)
  consider (D) "op AND 0xF000 = 0xD000" | (F) "op AND 0xF000 = 0xF000"
    | (P) "op AND 0xF000 \<noteq> 0xD000" "op AND 0xF000 \<noteq> 0xF000" by blast
  then show ?thesis
  proof cases
    case D
    show ?thesis
    proof (cases "f_n op = 0 \<or> unat (I (st vm)) + f_n op \<le> kMemSize")
      case True
      then have "in_bounds vm" using Some D by (simp add: in_bounds_def)
      then show ?thesis using step_draw_ok [OF assms Some D True, of k rnd] by auto
    next
      case False
      then have "\<not> in_bounds vm" using Some D by (simp add: in_bounds_def)
      moreover have "step vm k rnd = None"
        using False by (intro step_draw_None [OF assms Some D]) simp_all
      ultimately show ?thesis by simp
    qed
  next
    case F
    consider (a) "f_nn op = 0x33" | (b) "f_nn op = 0x55" | (c) "f_nn op = 0x65"
      | (d) "f_nn op \<noteq> 0x33" "f_nn op \<noteq> 0x55" "f_nn op \<noteq> 0x65" by blast
    then show ?thesis
    proof cases
      case a
      have ib: "in_bounds vm = (unat (I (st vm)) + 2 < kMemSize)"
        using Some F a by (simp add: in_bounds_def)
      show ?thesis using step_Fx33 [OF assms Some F a, of k rnd] by (auto simp add: ib)
    next
      case b
      have ib: "in_bounds vm = (unat (I (st vm)) + f_x op < kMemSize)"
        using Some F b by (simp add: in_bounds_def)
      have m: "op AND 0xF0FF = 0xF055" using mask_of_misc [OF F b] by simp
      show ?thesis
      proof (cases "unat (I (st vm)) + f_x op < kMemSize")
        case True
        from step_Fx55 [OF assms Some m True, of k rnd] obtain m' where
          s: "step vm k rnd = Some (vm\<lparr>st := (st vm)\<lparr>mem := m', pc := pc (st vm) + 2\<rparr>\<rparr>, False)"
          and l: "length m' = kMemSize" by blast
        have "inv_vm (vm\<lparr>st := (st vm)\<lparr>mem := m', pc := pc (st vm) + 2\<rparr>\<rparr>)"
          using assms l by (simp add: inv_vm_def)
        then show ?thesis using s True by (auto simp add: ib)
      next
        case False
        then show ?thesis using step_Fx55_None [OF assms Some m, of k rnd] by (simp add: ib)
      qed
    next
      case c
      have ib: "in_bounds vm = (unat (I (st vm)) + f_x op < kMemSize)"
        using Some F c by (simp add: in_bounds_def)
      have m: "op AND 0xF0FF = 0xF065" using mask_of_misc [OF F c] by simp
      show ?thesis
      proof (cases "unat (I (st vm)) + f_x op < kMemSize")
        case True
        from step_Fx65 [OF assms Some m True, of k rnd] obtain r' where
          s: "step vm k rnd = Some (vm\<lparr>st := (st vm)\<lparr>v := r', pc := pc (st vm) + 2\<rparr>\<rparr>, False)"
          and l: "length r' = kRegCount" by blast
        have "inv_vm (vm\<lparr>st := (st vm)\<lparr>v := r', pc := pc (st vm) + 2\<rparr>\<rparr>)"
          using assms l by (simp add: inv_vm_def)
        then show ?thesis using s True by (auto simp add: ib)
      next
        case False
        then show ?thesis using step_Fx65_None [OF assms Some F c, of k rnd] by (simp add: ib)
      qed
    next
      case d
      have "in_bounds vm" using Some F d by (simp add: in_bounds_def)
      then show ?thesis using step_misc_plain [OF assms Some F d, of k rnd] by auto
    qed
  next
    case P
    have ib: "in_bounds vm" using Some P by (simp add: in_bounds_def)
    have i0: "inv_vm (set_pc (pc (st vm) + 2) vm)" using assms by (simp add: inv_set_pc)
    have "returns_inv (map_option fst (exec op (set_pc (pc (st vm) + 2) vm) k rnd))"
      by (rule exec_plain_total [OF i0 P])
    then have "returns_inv (map_option fst (step vm k rnd))" by (simp add: step_exec [OF Some])
    then obtain r where "step vm k rnd = Some r" "inv_vm (fst r)"
      by (auto simp add: returns_inv_iff)
    then have "\<exists>vm' d. step vm k rnd = Some (vm', d) \<and> inv_vm vm'" by (cases r) auto
    then show ?thesis using ib by simp
  qed
qed

lemma load_ok:
  assumes "length (mem (st vm)) = kMemSize" and "kEntryAddr + length bs \<le> kMemSize"
  shows "load vm (Some bs) =
     Some (vm\<lparr>st := (st vm)\<lparr>mem := take kEntryAddr (mem (st vm)) @ bs @
                                 drop (kEntryAddr + length bs) (mem (st vm)), pc := 0x200\<rparr>\<rparr>, True)"
proof -
  have l: "kEntryAddr + 0 + length bs \<le> length (mem (st vm))" using assms by simp
  show ?thesis using assms by (simp add: load_def copy_bytes_Some [OF l] set_pc_def)
qed

lemma inv_booted: "inv_vm booted"
  by (simp add: inv_vm_def booted_def Chip8VM0_def State0_def length_font)

lemma reset_inv:
  assumes "inv_vm vm" and "reset vm = Some vm'"
  shows "inv_vm vm'"
proof -
  let ?vm0 = "vm\<lparr>st := State0, fb := (fb vm)\<lparr>pix := replicate kPixelCount 0\<rparr>\<rparr>"
  have l: "0x050 + 0 + length kFontSprites \<le> length (mem (st ?vm0))"
    by (simp add: State0_def length_font)
  have "inv_vm (?vm0\<lparr>st := (st ?vm0)\<lparr>mem := m\<rparr>\<rparr>)" if "length m = kMemSize" for m
    using assms(1) that by (simp add: inv_vm_def State0_def)
  moreover have "length (take (0x050 + 0) (mem (st ?vm0)) @ kFontSprites @
      drop (0x050 + 0 + length kFontSprites) (mem (st ?vm0))) = kMemSize"
    by (simp add: State0_def length_font)
  ultimately show ?thesis
    using assms(2) unfolding reset_def copy_bytes_Some [OF l] by auto
qed

lemma load_inv:
  assumes "inv_vm vm" and "load vm rom = Some (vm', b)"
  shows "inv_vm vm'"
proof (cases rom)
  case None
  then show ?thesis using assms by (simp add: load_def)
next
  case (Some bs)
  have len: "length (mem (st vm)) = kMemSize" using assms(1) by (simp add: inv_vm_def)
  show ?thesis
  proof (cases "kEntryAddr + length bs \<le> kMemSize")
    case True
    have "inv_vm (vm\<lparr>st := (st vm)\<lparr>mem := take kEntryAddr (mem (st vm)) @ bs @
                                 drop (kEntryAddr + length bs) (mem (st vm)), pc := 0x200\<rparr>\<rparr>)"
      using assms(1) True by (simp add: inv_vm_def)
    then show ?thesis using assms(2) Some load_ok [OF len True] by simp
  next
    case False
    then show ?thesis using assms Some len by (simp add: load_def)
  qed
qed

lemma timerTick_inv: "inv_vm vm \<Longrightarrow> inv_vm (fst (timerTick vm))"
  by (simp add: timerTick_def Let_def inv_vm_def)

lemma feedKey_inv:
  assumes "inv_vm vm" and "feedKey vm key = Some vm'"
  shows "inv_vm vm'"
  using assms by (auto simp add: feedKey_def set_reg_def wr_def inv_vm_def split: if_splits)

lemma reachable_inv: "reachable vm \<Longrightarrow> inv_vm vm"
proof (induction rule: reachable.induct)
  case (boot vm)
  then show ?case by (simp add: construct_eq inv_booted)
next
  case (again vm vm')
  then show ?case by (blast intro: reset_inv)
next
  case (loaded vm rom vm' b)
  then show ?case by (blast intro: load_inv)
next
  case (stepped vm k rnd vm' d)
  then show ?case using step_cases [of vm k rnd] by (auto split: if_splits)
next
  case (ticked vm)
  then show ?case by (simp add: timerTick_inv)
next
  case (keyed vm key vm')
  then show ?case by (blast intro: feedKey_inv)
qed

text \<open>
  Claim C2, as amended. Every reachable state keeps the array sizes and the ranges of the
  stack pointer and the pending register. In such a state \<^verbatim>\<open>step\<close> returns, in a
  reachable state, exactly when the memory cells it touches exist; otherwise it makes an
  out-of-range access. No register, stack or framebuffer index is ever out of range.
\<close>

theorem step_total:
  assumes "reachable vm"
  shows "inv_vm vm \<and>
     (if in_bounds vm then \<exists>vm' d. step vm k rnd = Some (vm', d) \<and> reachable vm'
      else step vm k rnd = None)"
proof -
  have i: "inv_vm vm" by (rule reachable_inv [OF assms])
  show ?thesis
  proof (cases "in_bounds vm")
    case True
    then obtain vm' d where s: "step vm k rnd = Some (vm', d)"
      using step_cases [OF i, of k rnd] by auto
    then have "reachable vm'" using assms by (rule reachable.stepped [rotated])
    then show ?thesis using i True s by auto
  next
    case False
    then show ?thesis using i step_cases [OF i, of k rnd] by simp
  qed
qed

theorem step_total_witness:
  "reachable booted \<and> in_bounds booted \<and> (\<exists>vm' d. step booted Keypad0 0 = Some (vm', d))"
proof -
  have r: "reachable booted" using construct_eq by (rule reachable.boot)
  have "fetch (st booted) = Some 0"
    by (simp add: fetch_def rd_def booted_def Chip8VM0_def State0_def length_font nth_append)
  then have b: "in_bounds booted" by (simp add: in_bounds_def)
  show ?thesis using step_total [OF r, of Keypad0 0] r b by auto
qed

text \<open>
  A reachable state in which \<^verbatim>\<open>step\<close> reads outside memory: at \<^verbatim>\<open>pc = 0xFFF\<close> the second
  opcode byte is \<^verbatim>\<open>mem[4096]\<close>.
\<close>

theorem step_total_counterexample:
  "reachable far_jump \<and> step far_jump Keypad0 0 = None"
proof -
  let ?L = "booted\<lparr>st := (st booted)\<lparr>
     mem := take kEntryAddr (mem (st booted)) @ [0x1F, 0xFF] @ drop (kEntryAddr + 2) (mem (st booted)),
     pc := 0x200\<rparr>\<rparr>"
  have r0: "reachable booted" using construct_eq by (rule reachable.boot)
  have "load booted (Some [0x1F, 0xFF]) = Some (?L, True)"
    using load_ok [of booted "[0x1F, 0xFF]"] by (simp add: booted_fields)
  then have r1: "reachable ?L" using r0 by (rule reachable.loaded [rotated])
  have lm: "length (mem (st booted)) = 4096" by (simp add: booted_fields)
  have f: "fetch (st ?L) = Some 0x1FFF"
    using lm by (simp add: fetch_def rd_def booted_fields nth_append)
  have "step ?L Keypad0 0 = exec 0x1FFF (set_pc (pc (st ?L) + 2) ?L) Keypad0 0"
    by (rule step_exec [OF f])
  also have "\<dots> = Some (far_jump, False)"
    by (simp add: exec_def Let_def f_nnn_def f_nn_def set_pc_def far_jump_def)
  finally have "step ?L Keypad0 0 = Some (far_jump, False)" .
  then have r2: "reachable far_jump" using r1 by (rule reachable.stepped [rotated])
  have "fetch (st far_jump) = None"
    using lm by (simp add: far_jump_def fetch_def rd_def)
  then have "step far_jump Keypad0 0 = None" by (simp add: step_def)
  then show ?thesis using r2 by simp
qed

section \<open>Waiting for a key\<close>

text \<open>
  \<^verbatim>\<open>Fx0A\<close> records the waiting state, and \<^verbatim>\<open>feedKey\<close> writes the key into the pending
  register once and clears the state; \<^verbatim>\<open>step\<close> itself never reads \<^verbatim>\<open>waitKey\<close>.
\<close>

lemma step_Fx0A:
  assumes "fetch (st vm) = Some op" and "op AND 0xF000 = 0xF000" and "f_nn op = 0x0A"
  shows "step vm k rnd =
     Some (vm\<lparr>st := (st vm)\<lparr>pc := pc (st vm) + 2\<rparr>, waitKey := True, waitReg := of_nat (f_x op)\<rparr>,
           False)"
  using assms(3) by (simp add: step_misc [OF assms(1,2)] misc_def Let_def nodraw_def set_pc_def)

lemma feedKey_delivers:
  assumes "inv_vm vm"
  shows "feedKey vm key =
     Some (if waitKey vm
           then vm\<lparr>st := (st vm)\<lparr>v := (v (st vm))[unat (waitReg vm) := key]\<rparr>, waitKey := False\<rparr>
           else vm)"
  using assms by (simp add: feedKey_def set_reg_def wr_def inv_vm_def)

lemma step_6xnn:
  assumes "inv_vm vm" and "fetch (st vm) = Some op" and "op AND 0xF000 = 0x6000"
  shows "step vm k rnd =
     Some (vm\<lparr>st := (st vm)\<lparr>pc := pc (st vm) + 2, v := (v (st vm))[f_x op := f_nn op]\<rparr>\<rparr>, False)"
proof -
  have "length (v (st vm)) = 16" using assms(1) by (simp add: inv_vm_def)
  then show ?thesis
    using assms(3) f_x_less [of op]
    by (simp add: step_exec [OF assms(2)] exec_def Let_def nodraw_def set_reg_def wr_def set_pc_def)
qed

text \<open>
  Claim C1, on the program \<^verbatim>\<open>F00A 6005\<close>. The first \<^verbatim>\<open>step\<close> enters the waiting state
  for register 0. No key is delivered; the second \<^verbatim>\<open>step\<close>, which the driver issues in
  the same frame, is not a no-op: it executes \<^verbatim>\<open>6005\<close> and changes \<open>V0\<close> from 0 to 5
  while the machine is still waiting.
\<close>

theorem wait_not_honoured:
  "load booted (Some [0xF0, 0x0A, 0x60, 0x05]) = Some (wait_loaded, True) \<and>
   step wait_loaded Keypad0 0 = Some (wait_entered, False) \<and>
   waitKey wait_entered \<and> waitReg wait_entered = 0 \<and> v (st wait_entered) ! 0 = 0 \<and>
   step wait_entered Keypad0 0 = Some (wait_overrun, False) \<and>
   waitKey wait_overrun \<and> v (st wait_overrun) ! 0 = 5"
proof -
  have lm: "length (mem (st booted)) = 4096" by (simp add: booted_fields)
  have l: "load booted (Some [0xF0, 0x0A, 0x60, 0x05]) = Some (wait_loaded, True)"
    using load_ok [of booted "[0xF0, 0x0A, 0x60, 0x05]"] by (simp add: booted_fields wait_loaded_def)
  have f1: "fetch (st wait_loaded) = Some 0xF00A"
    using lm by (simp add: wait_loaded_def fetch_def rd_def nth_append)
  have d1: "(0xF00A :: u16) AND 0xF000 = 0xF000" "f_nn 0xF00A = 0x0A" "f_x 0xF00A = 0"
    by (simp_all add: f_nn_def f_x_def)
  have p1: "pc (st wait_loaded) = 0x200" by (simp add: wait_loaded_def)
  have s1: "step wait_loaded Keypad0 0 = Some (wait_entered, False)"
    using step_Fx0A [OF f1 d1(1,2), of Keypad0 0] by (simp add: d1 p1 wait_entered_def)
  have i2: "inv_vm wait_entered"
    using inv_booted lm by (simp add: wait_entered_def wait_loaded_def inv_vm_def)
  have f2: "fetch (st wait_entered) = Some 0x6005"
    using lm by (simp add: wait_entered_def wait_loaded_def fetch_def rd_def nth_append)
  have d2: "(0x6005 :: u16) AND 0xF000 = 0x6000" "f_nn 0x6005 = 5" "f_x 0x6005 = 0"
    by (simp_all add: f_nn_def f_x_def)
  have p2: "pc (st wait_entered) = 0x202" by (simp add: wait_entered_def)
  have s2: "step wait_entered Keypad0 0 = Some (wait_overrun, False)"
    using step_6xnn [OF i2 f2 d2(1), of Keypad0 0] by (simp add: d2 p2 wait_overrun_def)
  have v1: "v (st wait_entered) = replicate 16 0"
    by (simp add: wait_entered_def wait_loaded_def booted_def Chip8VM0_def State0_def)
  have o: "waitKey wait_entered" "waitReg wait_entered = 0" "v (st wait_entered) ! 0 = 0"
    "waitKey wait_overrun" "v (st wait_overrun) ! 0 = 5"
    by (simp_all add: wait_overrun_def v1) (simp_all add: wait_entered_def)
  show ?thesis using l s1 s2 o by simp
qed

section \<open>The register block claim\<close>

lemma step_Annn:
  assumes "fetch (st vm) = Some op" and "op AND 0xF000 = 0xA000"
  shows "step vm k rnd = Some (vm\<lparr>st := (st vm)\<lparr>pc := pc (st vm) + 2, I := f_nnn op\<rparr>\<rparr>, False)"
  using assms(2) by (simp add: step_exec [OF assms(1)] exec_def Let_def set_pc_def)

lemma store_loaded_fields:
  "length (mem (st store_loaded)) = 4096" "pc (st store_loaded) = 0x200"
  "v (st store_loaded) = replicate 16 0" "inv_vm store_loaded"
  "mem (st store_loaded) ! 0x200 = 0x60" "mem (st store_loaded) ! 0x201 = 0x07"
  "mem (st store_loaded) ! 0x202 = 0x61" "mem (st store_loaded) ! 0x203 = 0x08"
  "mem (st store_loaded) ! 0x204 = 0x62" "mem (st store_loaded) ! 0x205 = 0x09"
  "mem (st store_loaded) ! 0x206 = 0xAF" "mem (st store_loaded) ! 0x207 = 0xFE"
  "mem (st store_loaded) ! 0x208 = 0xF2" "mem (st store_loaded) ! 0x209 = 0x55"
proof -
  have lm: "length (mem (st booted)) = 4096" by (simp add: booted_fields)
  show "length (mem (st store_loaded)) = 4096" using lm by (simp add: store_loaded_def)
  show "pc (st store_loaded) = 0x200" by (simp add: store_loaded_def)
  show "v (st store_loaded) = replicate 16 0"
    by (simp add: store_loaded_def booted_def Chip8VM0_def State0_def)
  show "inv_vm store_loaded" using inv_booted lm by (simp add: store_loaded_def inv_vm_def)
  show "mem (st store_loaded) ! 0x200 = 0x60" "mem (st store_loaded) ! 0x201 = 0x07"
    "mem (st store_loaded) ! 0x202 = 0x61" "mem (st store_loaded) ! 0x203 = 0x08"
    "mem (st store_loaded) ! 0x204 = 0x62" "mem (st store_loaded) ! 0x205 = 0x09"
    "mem (st store_loaded) ! 0x206 = 0xAF" "mem (st store_loaded) ! 0x207 = 0xFE"
    "mem (st store_loaded) ! 0x208 = 0xF2" "mem (st store_loaded) ! 0x209 = 0x55"
    using lm by (simp_all add: store_loaded_def nth_append)
qed

text \<open>
  Claim C8, with the bound that the code needs. In a state where the cells
  \<^verbatim>\<open>I .. I + x\<close> lie inside the 4096-byte memory, \<^verbatim>\<open>Fx55\<close> returns and leaves \<^verbatim>\<open>I\<close> as it
  was, and \<^verbatim>\<open>Fx65\<close> with the same \<open>x\<close>, executed next, returns with registers \<open>V0..Vx\<close>
  holding what they held before the pair. In every other state \<^verbatim>\<open>Fx55\<close> writes outside
  memory: \<^verbatim>\<open>I\<close> is a 16-bit value that the executor does not bound.
\<close>

theorem store_load_identity:
  assumes "inv_vm vm" and "fetch (st vm) = Some op1" and "op1 AND 0xF0FF = 0xF055"
  shows "if unat (I (st vm)) + f_x op1 < kMemSize then
           \<exists>vm1. step vm k rnd = Some (vm1, False) \<and> I (st vm1) = I (st vm) \<and>
             (\<forall>op2. fetch (st vm1) = Some op2 \<and> op2 AND 0xF0FF = 0xF065 \<and> f_x op2 = f_x op1 \<longrightarrow>
                (\<exists>vm2. step vm1 k' rnd' = Some (vm2, False) \<and>
                   (\<forall>i\<le>f_x op1. v (st vm2) ! i = v (st vm) ! i)))
         else step vm k rnd = None"
proof (cases "unat (I (st vm)) + f_x op1 < kMemSize")
  case True
  from store_load_pair [OF assms True, of k rnd k' rnd'] True show ?thesis by simp
next
  case False
  then have "kMemSize \<le> unat (I (st vm)) + f_x op1" by simp
  from step_Fx55_None [OF assms this, of k rnd] False show ?thesis by simp
qed

text \<open>\<open>V0..V2 = 7, 8, 9\<close> stored at \<open>0x300\<close> and loaded back.\<close>

theorem store_load_identity_witness:
  "\<exists>vm1. step (with_I 0x300 (machine [0xF2, 0x55, 0xF2, 0x65] [7, 8, 9])) Keypad0 0 =
            Some (vm1, False) \<and>
     (\<exists>vm2. step vm1 Keypad0 0 = Some (vm2, False) \<and>
        v (st vm2) ! 0 = 7 \<and> v (st vm2) ! 1 = 8 \<and> v (st vm2) ! 2 = 9)"
proof -
  let ?M = "with_I 0x300 (machine [0xF2, 0x55, 0xF2, 0x65] [7, 8, 9])"
  have i: "inv_vm ?M" by (simp add: with_I_fields inv_machine)
  have f: "fetch (st ?M) = Some 0xF255" by (simp add: with_I_fields fetch_machine)
  have m: "(0xF255 :: u16) AND 0xF0FF = 0xF055" "(0xF265 :: u16) AND 0xF0FF = 0xF065" by simp_all
  have d: "f_x 0xF255 = 2" "f_x 0xF265 = 2" by (simp_all add: f_x_def)
  have b: "unat (I (st ?M)) + f_x 0xF255 < kMemSize" by (simp add: with_I_fields d)
  have pcM: "pc (st ?M) = 0x200" by (simp add: with_I_def machine_fields)
  from step_Fx55 [OF i f m(1) b, of Keypad0 0] obtain m' where
    e: "step ?M Keypad0 0 = Some (?M\<lparr>st := (st ?M)\<lparr>mem := m', pc := pc (st ?M) + 2\<rparr>\<rparr>, False)"
    and l: "length m' = kMemSize"
    and u: "\<forall>j. j < unat (I (st ?M)) \<or> unat (I (st ?M)) + f_x 0xF255 < j \<longrightarrow> m' ! j = mem (st ?M) ! j"
    by blast
  let ?M1 = "?M\<lparr>st := (st ?M)\<lparr>mem := m', pc := pc (st ?M) + 2\<rparr>\<rparr>"
  have "m' ! 0x202 = mem (st ?M) ! 0x202" "m' ! 0x203 = mem (st ?M) ! 0x203"
    using u by (simp_all add: with_I_fields)
  then have c: "m' ! 0x202 = 0xF2" "m' ! 0x203 = 0x65"
    by (simp_all add: with_I_fields machine_fields nth_append)
  have f1: "fetch (st ?M1) = Some 0xF265"
    using l c by (simp add: fetch_def rd_def pcM)
  note T = store_load_identity [OF i f m(1), where k = Keypad0 and rnd = 0 and k' = Keypad0
      and rnd' = 0]
  from T b
  obtain vm1 where s1: "step ?M Keypad0 0 = Some (vm1, False)"
    and n: "\<forall>op2. fetch (st vm1) = Some op2 \<and> op2 AND 0xF0FF = 0xF065 \<and> f_x op2 = f_x 0xF255 \<longrightarrow>
        (\<exists>vm2. step vm1 Keypad0 0 = Some (vm2, False) \<and>
           (\<forall>i\<le>f_x 0xF255. v (st vm2) ! i = v (st ?M) ! i))"
    by (simp only: if_True) blast
  have "vm1 = ?M1" using s1 e by simp
  then have f2: "fetch (st vm1) = Some 0xF265" using f1 by simp
  then have "\<exists>vm2. step vm1 Keypad0 0 = Some (vm2, False) \<and>
           (\<forall>i\<le>f_x 0xF255. v (st vm2) ! i = v (st ?M) ! i)"
    using n [rule_format, of "0xF265"] m(2) d by simp
  then obtain vm2 where s2: "step vm1 Keypad0 0 = Some (vm2, False)"
    and r: "\<forall>i\<le>f_x 0xF255. v (st vm2) ! i = v (st ?M) ! i" by blast
  have "v (st vm2) ! 0 = v (st ?M) ! 0" "v (st vm2) ! 1 = v (st ?M) ! 1" "v (st vm2) ! 2 = v (st ?M) ! 2"
    using r by (simp_all add: d)
  then have "v (st vm2) ! 0 = 7" "v (st vm2) ! 1 = 8" "v (st vm2) ! 2 = 9"
    by (simp_all add: with_I_fields machine_fields)
  then show ?thesis using s1 s2 by blast
qed

text \<open>
  A reachable state in which the pair is not an identity: after \<^verbatim>\<open>6007 6108 6209 AFFE\<close>
  the store \<^verbatim>\<open>F255\<close> puts \<open>V2\<close> at \<^verbatim>\<open>mem[4096]\<close>, outside the array.
\<close>

theorem store_load_identity_counterexample:
  "reachable store_edge \<and> fetch (st store_edge) = Some 0xF255 \<and>
   I (st store_edge) = 0xFFE \<and>
   v (st store_edge) ! 0 = 7 \<and> v (st store_edge) ! 1 = 8 \<and> v (st store_edge) ! 2 = 9 \<and>
   step store_edge Keypad0 0 = None"
proof -
  note F = store_loaded_fields
  let ?S = "\<lambda>p r. store_loaded\<lparr>st := (st store_loaded)\<lparr>pc := p, v := r\<rparr>\<rparr>"
  let ?r1 = "(replicate 16 0)[0 := 7 :: u8]"
  let ?r2 = "?r1[1 := 8]"
  let ?r3 = "?r2[2 := 9]"
  have S0: "store_loaded = ?S 0x200 (replicate 16 0)"
    using F(2,3) by (simp add: store_loaded_def)
  have inv: "inv_vm (?S p r)" if "length r = 16" for p r
    using F(4) that by (simp add: inv_vm_def)
  have r0: "reachable booted" using construct_eq by (rule reachable.boot)
  have "load booted (Some [0x60, 0x07, 0x61, 0x08, 0x62, 0x09, 0xAF, 0xFE, 0xF2, 0x55, 0xF2, 0x65]) =
          Some (store_loaded, True)"
    using load_ok [of booted "[0x60, 0x07, 0x61, 0x08, 0x62, 0x09, 0xAF, 0xFE, 0xF2, 0x55, 0xF2, 0x65]"]
    by (simp add: booted_fields store_loaded_def)
  then have "reachable store_loaded" using r0 by (rule reachable.loaded [rotated])
  then have R0: "reachable (?S 0x200 (replicate 16 0))" using S0 by simp
  have d: "(0x6007 :: u16) AND 0xF000 = 0x6000" "f_nn 0x6007 = 7" "f_x 0x6007 = 0"
    "(0x6108 :: u16) AND 0xF000 = 0x6000" "f_nn 0x6108 = 8" "f_x 0x6108 = 1"
    "(0x6209 :: u16) AND 0xF000 = 0x6000" "f_nn 0x6209 = 9" "f_x 0x6209 = 2"
    "(0xAFFE :: u16) AND 0xF000 = 0xA000" "f_nnn 0xAFFE = 0xFFE"
    "(0xF255 :: u16) AND 0xF0FF = 0xF055" "f_x 0xF255 = 2"
    by (simp_all add: f_nn_def f_x_def f_nnn_def)
  have f1: "fetch (st (?S 0x200 (replicate 16 0))) = Some 0x6007"
    using F(1,5,6) by (simp add: fetch_def rd_def)
  have "step (?S 0x200 (replicate 16 0)) Keypad0 0 = Some (?S 0x202 ?r1, False)"
    using step_6xnn [OF inv f1 d(1), of Keypad0 0] by (simp add: d)
  then have R1: "reachable (?S 0x202 ?r1)" using R0 by (rule reachable.stepped [rotated])
  have f2: "fetch (st (?S 0x202 ?r1)) = Some 0x6108"
    using F(1,7,8) by (simp add: fetch_def rd_def)
  have "step (?S 0x202 ?r1) Keypad0 0 = Some (?S 0x204 ?r2, False)"
    using step_6xnn [OF inv f2 d(4), of Keypad0 0] by (simp add: d)
  then have R2: "reachable (?S 0x204 ?r2)" using R1 by (rule reachable.stepped [rotated])
  have f3: "fetch (st (?S 0x204 ?r2)) = Some 0x6209"
    using F(1,9,10) by (simp add: fetch_def rd_def)
  have "step (?S 0x204 ?r2) Keypad0 0 = Some (?S 0x206 ?r3, False)"
    using step_6xnn [OF inv f3 d(7), of Keypad0 0] by (simp add: d)
  then have R3: "reachable (?S 0x206 ?r3)" using R2 by (rule reachable.stepped [rotated])
  have f4: "fetch (st (?S 0x206 ?r3)) = Some 0xAFFE"
    using F(1,11,12) by (simp add: fetch_def rd_def)
  have e: "store_edge = (?S 0x206 ?r3)\<lparr>st := (st (?S 0x206 ?r3))\<lparr>pc := 0x208, I := 0xFFE\<rparr>\<rparr>"
    using F(3) by (simp add: store_edge_def)
  have "step (?S 0x206 ?r3) Keypad0 0 = Some (store_edge, False)"
    using step_Annn [OF f4 d(10), of Keypad0 0] by (simp add: d e)
  then have R4: "reachable store_edge" using R3 by (rule reachable.stepped [rotated])
  have f5: "fetch (st store_edge) = Some 0xF255"
    using F(1,13,14) by (simp add: store_edge_def fetch_def rd_def)
  have a: "I (st store_edge) = 0xFFE" by (simp add: store_edge_def)
  have b: "kMemSize \<le> unat (I (st store_edge)) + f_x 0xF255" by (simp add: a d)
  have n: "step store_edge Keypad0 0 = None"
    by (rule step_Fx55_None [OF reachable_inv [OF R4] f5 d(12) b])
  have r: "v (st store_edge) ! 0 = 7" "v (st store_edge) ! 1 = 8" "v (st store_edge) ! 2 = 9"
    by (simp_all add: store_edge_def F(3))
  show ?thesis using R4 f5 a r n by simp
qed

section \<open>The draw claims\<close>

text \<open>
  Claim C5. In every machine state a draw \<^verbatim>\<open>Dxyn\<close> returns whenever its sprite bytes lie in
  memory, and whenever it returns it does so with the redraw flag and as follows. Target
  coordinates wrap modulo 64 and 32 (this is in \<open>lit\<close>); every pixel of the screen becomes
  its old value XOR the sprite bit that lands on it; \<open>VF\<close> is 1 if some set sprite bit
  lands on a pixel that was 1, else 0; the other registers are kept.
\<close>

theorem draw_spec:
  assumes "inv_vm vm" and "fetch (st vm) = Some op" and "op AND 0xF000 = 0xD000"
  shows "(f_n op = 0 \<or> unat (I (st vm)) + f_n op \<le> kMemSize \<longrightarrow>
            (\<exists>vm'. step vm k rnd = Some (vm', True))) \<and>
         (\<forall>vm' d. step vm k rnd = Some (vm', d) \<longrightarrow>
            d \<and> length (pix (fb vm')) = kPixelCount \<and>
            (\<forall>cx<64. \<forall>cy<32. pix (fb vm') ! (cy * 64 + cx) =
                pix (fb vm) ! (cy * 64 + cx) XOR (if lit vm op cx cy then 1 else 0)) \<and>
            v (st vm') ! 0xF =
              (if \<exists>cx<64. \<exists>cy<32. lit vm op cx cy \<and> pix (fb vm) ! (cy * 64 + cx) = 1
               then 1 else 0) \<and>
            (\<forall>i<15. v (st vm') ! i = v (st vm) ! i))"
proof (cases "f_n op = 0 \<or> unat (I (st vm)) + f_n op \<le> kMemSize")
  case True
  from draw_spec_in [OF assms True, of k rnd] obtain vm0 where
    s: "step vm k rnd = Some (vm0, True)"
    and p: "length (pix (fb vm0)) = kPixelCount"
      "\<forall>cx<64. \<forall>cy<32. pix (fb vm0) ! (cy * 64 + cx) =
                pix (fb vm) ! (cy * 64 + cx) XOR (if lit vm op cx cy then 1 else 0)"
      "v (st vm0) ! 0xF =
              (if \<exists>cx<64. \<exists>cy<32. lit vm op cx cy \<and> pix (fb vm) ! (cy * 64 + cx) = 1
               then 1 else 0)"
      "\<forall>i<15. v (st vm0) ! i = v (st vm) ! i"
    by blast
  show ?thesis
  proof (intro conjI allI impI)
    show "\<exists>vm'. step vm k rnd = Some (vm', True)" using s by blast
  next
    fix vm' d
    assume "step vm k rnd = Some (vm', d)"
    then have e: "vm' = vm0" "d = True" using s by simp_all
    show "d" "length (pix (fb vm')) = kPixelCount"
      "v (st vm') ! 0xF =
              (if \<exists>cx<64. \<exists>cy<32. lit vm op cx cy \<and> pix (fb vm) ! (cy * 64 + cx) = 1
               then 1 else 0)"
      using e p by simp_all
    show "pix (fb vm') ! (cy * 64 + cx) =
                pix (fb vm) ! (cy * 64 + cx) XOR (if lit vm op cx cy then 1 else 0)"
      if "cx < 64" "cy < 32" for cx cy
      using e p(2) that by simp
    show "v (st vm') ! i = v (st vm) ! i" if "i < 15" for i
      using e p(4) that by simp
  qed
next
  case False
  then have "step vm k rnd = None"
    by (intro step_draw_None [OF assms]) simp_all
  then show ?thesis using False by simp
qed

text \<open>
  The sprite \<^verbatim>\<open>0xFF\<close> drawn at \<open>x = 60\<close>, \<open>y = 0\<close> on a blank screen: columns 60 to 63 and
  0 to 3 of row 0 are lit, columns 4 and 59 and the next row are not, and \<open>VF = 0\<close>.
\<close>

theorem draw_spec_witness:
  "\<exists>vm'. step (with_I 0x202 (machine [0xD0, 0x11, 0xFF] [60, 0])) Keypad0 0 = Some (vm', True) \<and>
     pix (fb vm') ! 59 = 0 \<and> pix (fb vm') ! 60 = 1 \<and> pix (fb vm') ! 61 = 1 \<and>
     pix (fb vm') ! 62 = 1 \<and> pix (fb vm') ! 63 = 1 \<and> pix (fb vm') ! 0 = 1 \<and>
     pix (fb vm') ! 1 = 1 \<and> pix (fb vm') ! 2 = 1 \<and> pix (fb vm') ! 3 = 1 \<and>
     pix (fb vm') ! 4 = 0 \<and> pix (fb vm') ! 64 = 0 \<and> v (st vm') ! 0xF = 0"
proof -
  let ?M = "with_I 0x202 (machine [0xD0, 0x11, 0xFF] [60, 0])"
  have i: "inv_vm ?M" by (simp add: with_I_fields inv_machine)
  have f: "fetch (st ?M) = Some 0xD011" by (simp add: with_I_fields fetch_machine)
  have m: "(0xD011 :: u16) AND 0xF000 = 0xD000" by simp
  have d: "f_n 0xD011 = 1" "f_x 0xD011 = 0" "f_y 0xD011 = 1"
    by (simp_all add: f_n_def f_x_def f_y_def)
  have b: "unat (I (st ?M)) + f_n 0xD011 \<le> kMemSize" by (simp add: with_I_fields d)
  have P0: "pix (fb ?M) ! j = 0" if "j < 2048" for j
    using that by (simp add: with_I_fields machine_fields)
  have L: "lit ?M 0xD011 cx cy = (cy = 0 \<and> (cx = 60 \<or> cx = 61 \<or> cx = 62 \<or> cx = 63 \<or>
             cx = 0 \<or> cx = 1 \<or> cx = 2 \<or> cx = 3))" for cx cy
    by (simp add: lit_def d with_I_fields machine_fields nth_append ex_less8 bit_numeral_simps) auto
  note T = draw_spec [OF i f m, where k = Keypad0 and rnd = 0]
  from T [THEN conjunct1, rule_format, OF disjI2 [OF b]]
  obtain vm' where s: "step ?M Keypad0 0 = Some (vm', True)" by blast
  from T [THEN conjunct2, rule_format, OF s]
  have px: "\<forall>cx<64. \<forall>cy<32. pix (fb vm') ! (cy * 64 + cx) =
         pix (fb ?M) ! (cy * 64 + cx) XOR (if lit ?M 0xD011 cx cy then 1 else 0)"
    and vf: "v (st vm') ! 0xF =
       (if \<exists>cx<64. \<exists>cy<32. lit ?M 0xD011 cx cy \<and> pix (fb ?M) ! (cy * 64 + cx) = 1 then 1 else 0)"
    by blast+
  have p: "pix (fb vm') ! (cy * 64 + cx) = (if lit ?M 0xD011 cx cy then 1 else 0)"
    if "cx < 64" "cy < 32" for cx cy
  proof -
    have "cy * 64 + cx < 2048" using that by simp
    then show ?thesis using px that by (simp add: P0)
  qed
  have n: "\<not> (\<exists>cx<64. \<exists>cy<32. lit ?M 0xD011 cx cy \<and> pix (fb ?M) ! (cy * 64 + cx) = 1)"
  proof
    assume "\<exists>cx<64. \<exists>cy<32. lit ?M 0xD011 cx cy \<and> pix (fb ?M) ! (cy * 64 + cx) = 1"
    then obtain cx cy where c: "cx < 64" "cy < 32" "pix (fb ?M) ! (cy * 64 + cx) = 1" by blast
    have "cy * 64 + cx < 2048" using c(1,2) by simp
    then show False using c(3) by (simp add: P0)
  qed
  have vf0: "v (st vm') ! 0xF = 0" using vf n by simp
  have q: "pix (fb vm') ! 59 = 0" "pix (fb vm') ! 60 = 1" "pix (fb vm') ! 61 = 1"
    "pix (fb vm') ! 62 = 1" "pix (fb vm') ! 63 = 1" "pix (fb vm') ! 0 = 1"
    "pix (fb vm') ! 3 = 1" "pix (fb vm') ! 4 = 0" "pix (fb vm') ! 64 = 0"
    using p [of 59 0] p [of 60 0] p [of 61 0] p [of 62 0] p [of 63 0] p [of 0 0]
      p [of 3 0] p [of 4 0] p [of 0 1]
    by (simp_all add: L)
  have q1: "pix (fb vm') ! 1 = 1" using p [of 1 0] by (simp add: L)
  have q2: "pix (fb vm') ! 2 = 1" using p [of 2 0] by (simp add: L numeral_2_eq_2)
  show ?thesis using s q q1 q2 vf0 by simp
qed


text \<open>
  Claim C6, as amended. Two successive draws of the same \<^verbatim>\<open>Dxyn\<close>, with \<open>Vx\<close> and \<open>Vy\<close>
  the same at both, restore the whole screen to what it was before the first; the second
  reports \<open>VF = 1\<close> exactly when some set sprite bit lands on a pixel that was 0 before
  the first draw.
\<close>

theorem draw_twice:
  assumes "inv_vm vm" and "fetch (st vm) = Some op" and "op AND 0xF000 = 0xD000"
    and "step vm k rnd = Some (vm1, d1)"
    and "fetch (st vm1) = Some op"
    and "v (st vm1) ! f_x op = v (st vm) ! f_x op"
    and "v (st vm1) ! f_y op = v (st vm) ! f_y op"
  shows "\<exists>vm2. step vm1 k' rnd' = Some (vm2, True) \<and> pix (fb vm2) = pix (fb vm) \<and>
     v (st vm2) ! 0xF =
       (if \<exists>cx<64. \<exists>cy<32. lit vm op cx cy \<and> pix (fb vm) ! (cy * 64 + cx) = 0 then 1 else 0)"
proof -
  have b: "f_n op = 0 \<or> unat (I (st vm)) + f_n op \<le> kMemSize"
  proof (rule ccontr)
    assume n: "\<not> ?thesis"
    have "step vm k rnd = None" using n by (intro step_draw_None [OF assms(1-3)]) simp_all
    then show False using assms(4) by simp
  qed
  show ?thesis by (rule draw_twice_in [OF assms(1-3) b assms(4-7)])
qed

text \<open>
  Where the claim as stated fails: with pixel \<open>(0, 0)\<close> lit beforehand, the first draw
  clears it and reports the collision; the second draw lights it again and reports none.
\<close>

theorem draw_twice_counterexample:
  "fetch (st lit_start) = Some 0xD001 \<and> step lit_start Keypad0 0 = Some (lit_mid, True) \<and>
   fetch (st lit_mid) = Some 0xD001 \<and> step lit_mid Keypad0 0 = Some (lit_end, True) \<and>
   v (st lit_mid) ! f_x 0xD001 = v (st lit_start) ! f_x 0xD001 \<and>
   v (st lit_mid) ! f_y 0xD001 = v (st lit_start) ! f_y 0xD001 \<and>
   lit lit_start 0xD001 0 0 \<and> pix (fb lit_end) ! (0 * 64 + 0) = 1 \<and> v (st lit_end) ! 0xF = 0"
proof -
  have s1: "step lit_start Keypad0 0 = Some (lit_mid, True)"
    using step_one_pixel [OF lit_states(1-5)] by (simp add: lit_states(6) lit_mid_def)
  have s2: "step lit_mid Keypad0 0 = Some (lit_end, True)"
    using step_one_pixel [OF lit_states(7-11)] by (simp add: lit_states(12) lit_end_def)
  have d: "f_x 0xD001 = 0" "f_y 0xD001 = 0" "f_n 0xD001 = 1"
    by (simp_all add: f_x_def f_y_def f_n_def)
  have l: "lit lit_start 0xD001 0 0"
    unfolding lit_def d
    by (simp add: lit_states(2,3,4) blank_start_def with_I_fields machine_fields nth_append ex_less8)
  have li: "length (v (st lit_mid)) = 16" "length (pix (fb lit_mid)) = 2048"
    using lit_states(7) by (simp_all add: inv_vm_def)
  have e: "pix (fb lit_end) ! (0 * 64 + 0) = 1" "v (st lit_end) ! 0xF = 0"
    using li by (simp_all add: lit_end_def after_draw_fields)
  show ?thesis using s1 s2 l e lit_states(4,5,10,11) by (simp add: d)
qed


text \<open>On the blank screen the second draw restores the blank screen and reports \<open>VF = 1\<close>.\<close>

theorem draw_twice_witness:
  "\<exists>vm2. step blank_mid Keypad0 0 = Some (vm2, True) \<and> pix (fb vm2) = pix (fb blank_start) \<and>
     v (st vm2) ! 0xF = 1"
proof -
  have d: "f_x 0xD001 = 0" "f_y 0xD001 = 0" "f_n 0xD001 = 1"
    by (simp_all add: f_x_def f_y_def f_n_def)
  have m: "(0xD001 :: u16) AND 0xF000 = 0xD000" by simp
  have b: "unat (I (st blank_start)) + f_n 0xD001 \<le> kMemSize"
    by (simp add: blank_start_fields d)
  have v0: "v (st blank_start) ! 0 = 0" by (simp add: blank_start_fields)
  have p0: "pix (fb blank_start) ! 0 = 0" by (simp add: blank_start_fields)
  have s1: "step blank_start Keypad0 0 = Some (blank_mid, True)"
    using step_one_pixel [OF blank_start_fields(1) refl blank_start_fields(3) v0 blank_start_fields(2)]
    by (simp add: p0 blank_mid_def)
  have "pc (st blank_mid) = 0x202" "mem (st blank_mid) = mem (st blank_start)"
    by (simp_all add: blank_mid_def after_draw_fields blank_start_fields)
  then have f1: "fetch (st blank_mid) = Some 0xD001" using fetch_second by blast
  have vx: "v (st blank_mid) ! f_x 0xD001 = v (st blank_start) ! f_x 0xD001"
    and vy: "v (st blank_mid) ! f_y 0xD001 = v (st blank_start) ! f_y 0xD001"
    by (simp_all add: d blank_mid_def after_draw_fields blank_start_fields)
  have l: "lit blank_start 0xD001 0 0"
    unfolding lit_def d
    by (simp add: blank_start_def with_I_fields machine_fields nth_append ex_less8)
  have c: "\<exists>cx<64. \<exists>cy<32. lit blank_start 0xD001 cx cy \<and> pix (fb blank_start) ! (cy * 64 + cx) = 0"
    using l p0 by (intro exI [of _ 0] conjI) simp_all
  show ?thesis
    using draw_twice [OF blank_start_fields(1,2) m s1 f1 vx vy, where k' = Keypad0 and rnd' = 0] c
    by simp
qed

end
